theory Spec2Isabelle
  imports Main
begin

section \<open>JavaScript values\<close>

text \<open>
  The fetcher handles the upstream API's JSON dynamically: it reads properties by name and
  merges objects with the spread operator. Values are therefore modelled as JSON values plus
  \<open>undefined\<close>. An object is the list of its property definitions in enumeration
  order, as a JSON text or an object literal gives them; a key defined twice has the value
  of its last definition, as \<open>JSON.parse\<close> has it. A \<open>char\<close> stands for one UTF-16
  code unit; numbers are the integers.
\<close>

datatype jsval =
    JUndefined
  | JNull
  | JBool bool
  | JNum int
  | JStr string
  | JArr "jsval list"
  | JObj "(string \<times> jsval) list"

text \<open>A thrown value: \<open>new Error(message)\<close>, or the engine's TypeError.\<close>

datatype jserror = JsError string | JsTypeError string

fun errMessage :: "jserror \<Rightarrow> string" where
  "errMessage (JsError m) = m"
| "errMessage (JsTypeError m) = m"

text \<open>Truthiness, as \<open>if (x)\<close>, \<open>!x\<close>, \<open>x && y\<close> and \<open>x || y\<close> test it.\<close>

fun truthy :: "jsval \<Rightarrow> bool" where
  "truthy JUndefined = False"
| "truthy JNull = False"
| "truthy (JBool b) = b"
| "truthy (JNum n) = (n \<noteq> 0)"
| "truthy (JStr s) = (s \<noteq> [])"
| "truthy (JArr xs) = True"
| "truthy (JObj kvs) = True"

text \<open>\<open>a || b\<close>\<close>

definition orElse :: "jsval \<Rightarrow> jsval \<Rightarrow> jsval" where
  "orElse a b = (if truthy a then a else b)"

text \<open>
  \<open>a === b\<close>. Primitives compare by value. Objects and arrays compare by reference; the
  two operands of the one comparison in the program come from two separately parsed
  responses, so two objects there are never the same reference.
\<close>

fun strictEq :: "jsval \<Rightarrow> jsval \<Rightarrow> bool" where
  "strictEq JUndefined JUndefined = True"
| "strictEq JNull JNull = True"
| "strictEq (JBool a) (JBool b) = (a = b)"
| "strictEq (JNum a) (JNum b) = (a = b)"
| "strictEq (JStr a) (JStr b) = (a = b)"
| "strictEq _ _ = False"

text \<open>
  \<open>v.k\<close> for the property names the program reads (\<open>id\<close>, \<open>snippet\<close>, \<open>title\<close>, ...):
  reading from \<open>undefined\<close> or \<open>null\<close> throws a TypeError, an object yields the
  property or \<open>undefined\<close>, and no primitive or array has a property of one of these names.
\<close>

definition cannotRead :: "string \<Rightarrow> string \<Rightarrow> jserror" where
  "cannotRead what k =
     JsTypeError (''Cannot read properties of '' @ what @ '' (reading '' @ k @ '')'')"

fun getProp :: "jsval \<Rightarrow> string \<Rightarrow> jserror + jsval" where
  "getProp JUndefined k = Inl (cannotRead ''undefined'' k)"
| "getProp JNull k = Inl (cannotRead ''null'' k)"
| "getProp (JObj kvs) k = Inr (case map_of (rev kvs) k of Some v \<Rightarrow> v | None \<Rightarrow> JUndefined)"
| "getProp _ k = Inr JUndefined"

text \<open>Sequencing of expressions that may throw.\<close>

fun bindE :: "jserror + 'a \<Rightarrow> ('a \<Rightarrow> jserror + 'b) \<Rightarrow> jserror + 'b" where
  "bindE (Inl e) f = Inl e"
| "bindE (Inr x) f = f x"

text \<open>A property chain \<open>v.k1.k2...\<close>\<close>

fun getPath :: "jsval \<Rightarrow> string list \<Rightarrow> jserror + jsval" where
  "getPath v [] = Inr v"
| "getPath v (k # ks) = bindE (getProp v k) (\<lambda>w. getPath w ks)"

text \<open>\<open>xs.map(f)\<close> for a callback that may throw: the first throw ends the map.\<close>

fun mapE :: "('a \<Rightarrow> jserror + 'b) \<Rightarrow> 'a list \<Rightarrow> jserror + 'b list" where
  "mapE f [] = Inr []"
| "mapE f (x # xs) = bindE (f x) (\<lambda>y. bindE (mapE f xs) (\<lambda>ys. Inr (y # ys)))"

section \<open>Strings\<close>

definition startsWith :: "string \<Rightarrow> string \<Rightarrow> bool" where
  "startsWith p s = (take (length p) s = p)"

fun includesStr :: "string \<Rightarrow> string \<Rightarrow> bool" where
  "includesStr sub [] = (sub = [])"
| "includesStr sub (c # cs) = (startsWith sub (c # cs) \<or> includesStr sub cs)"

text \<open>
  \<open>s.split(sep)\<close> for a non-empty separator: \<open>splitAcc sep piece rest\<close> has read
  \<open>piece\<close> of the current part and still has \<open>rest\<close> to scan.
\<close>

function splitAcc :: "string \<Rightarrow> string \<Rightarrow> string \<Rightarrow> string list" where
  "splitAcc sep piece [] = [piece]"
| "splitAcc sep piece (c # cs) =
     (if sep \<noteq> [] \<and> startsWith sep (c # cs)
      then piece # splitAcc sep [] (drop (length sep) (c # cs))
      else splitAcc sep (piece @ [c]) cs)"
  by pat_completeness auto

termination
  by (relation "measure (\<lambda>(sep, piece, rest). length rest)") auto

definition splitStr :: "string \<Rightarrow> string \<Rightarrow> string list" where
  "splitStr sep s = splitAcc sep [] s"

text \<open>
  \<open>parts[i]\<close> followed by a method call on it: out of range the element is
  \<open>undefined\<close> and the call throws.
\<close>

definition part :: "string list \<Rightarrow> nat \<Rightarrow> string \<Rightarrow> jserror + string" where
  "part parts i method =
     (case drop i parts of
        x # _ \<Rightarrow> Inr x
      | [] \<Rightarrow> Inl (cannotRead ''undefined'' method))"

text \<open>Decimal digits, for template strings and \<open>join\<close>.\<close>

function showNat :: "nat \<Rightarrow> string" where
  "showNat n = (if n < 10 then [''0123456789'' ! n] else showNat (n div 10) @ [''0123456789'' ! (n mod 10)])"
  by pat_completeness auto

termination
  by (relation "measure id") auto

definition showInt :: "int \<Rightarrow> string" where
  "showInt i = (if i < 0 then CHR ''-'' # showNat (nat (- i)) else showNat (nat i))"

fun joinWith :: "string \<Rightarrow> string list \<Rightarrow> string" where
  "joinWith sep [] = []"
| "joinWith sep [x] = x"
| "joinWith sep (x # y # ys) = x @ sep @ joinWith sep (y # ys)"

text \<open>
  String conversion, as a template string and \<open>Array.prototype.join\<close> apply it; inside
  an array \<open>undefined\<close> and \<open>null\<close> become the empty string.
\<close>

fun jsToString :: "jsval \<Rightarrow> string" where
  "jsToString JUndefined = ''undefined''"
| "jsToString JNull = ''null''"
| "jsToString (JBool b) = (if b then ''true'' else ''false'')"
| "jsToString (JNum n) = showInt n"
| "jsToString (JStr s) = s"
| "jsToString (JArr xs) =
     joinWith '','' (map (\<lambda>x. case x of JUndefined \<Rightarrow> [] | JNull \<Rightarrow> [] | _ \<Rightarrow> jsToString x) xs)"
| "jsToString (JObj kvs) = ''[object Object]''"

text \<open>\<open>xs.join(sep)\<close>\<close>

definition joinJs :: "string \<Rightarrow> jsval list \<Rightarrow> string" where
  "joinJs sep xs =
     joinWith sep (map (\<lambda>x. case x of JUndefined \<Rightarrow> [] | JNull \<Rightarrow> [] | _ \<Rightarrow> jsToString x) xs)"

section \<open>Objects\<close>

text \<open>
  The own enumerable properties a spread \<open>...v\<close> copies: those of an object, the indexed
  elements of an array or string, and none of \<open>undefined\<close>, \<open>null\<close>, a boolean or a
  number.
\<close>

fun ownProps :: "jsval \<Rightarrow> (string \<times> jsval) list" where
  "ownProps (JObj kvs) = kvs"
| "ownProps (JArr xs) = map (\<lambda>i. (showNat i, xs ! i)) [0..<length xs]"
| "ownProps (JStr s) = map (\<lambda>i. (showNat i, JStr [s ! i])) [0..<length s]"
| "ownProps _ = []"

text \<open>
  Defining property \<open>k\<close> on an object under construction: an existing key keeps its place
  and takes the new value, a new key goes last.
\<close>

fun setProp :: "string \<Rightarrow> jsval \<Rightarrow> (string \<times> jsval) list \<Rightarrow> (string \<times> jsval) list" where
  "setProp k v [] = [(k, v)]"
| "setProp k v ((k', v') # kvs) =
     (if k = k' then (k, v) # kvs else (k', v') # setProp k v kvs)"

text \<open>An object literal \<open>{ ...a, k: v, ...b }\<close> is built left to right.\<close>

definition spreadInto :: "(string \<times> jsval) list \<Rightarrow> jsval \<Rightarrow> (string \<times> jsval) list" where
  "spreadInto kvs v = foldl (\<lambda>acc (k, w). setProp k w acc) kvs (ownProps v)"

section \<open>Effects and outcomes\<close>

text \<open>
  The upstream API is an oracle: every call is answered by a scripted reply, which either
  rejects with an error or resolves with the response's \<open>data\<close>. Of \<open>data\<close> the
  program reads \<open>items\<close> (an array when present) and \<open>nextPageToken\<close> (a string when
  present).
\<close>

record apiData =
  data_items :: "jsval list option"
  data_nextPageToken :: "string option"

type_synonym reply = "jserror + apiData"

text \<open>The parameters of the paginated \<open>search.list\<close> call.\<close>

record searchParams =
  sp_channelId :: jsval
  sp_order :: string
  sp_maxResults :: int
  sp_pageToken :: jsval
  sp_publishedAfter :: "jsval option"
  sp_publishedBefore :: "jsval option"

datatype request =
    SearchChannels string
  | ChannelsList jsval
  | SearchVideos searchParams
  | VideosList string

text \<open>
  What a run does, in order: upstream calls (\<open>ApiCall\<close>), the courtesy delay
  (\<open>Sleep\<close>), the invocations of the fetcher's \<open>options.onProgress\<close> and
  \<open>options.onVideos\<close> (\<open>OptProgress\<close>, \<open>OptVideos\<close>), the invocations of the
  four callbacks of \<open>streamYoutubeVideos\<close> (\<open>CbProgress\<close>, \<open>CbVideo\<close>,
  \<open>CbComplete\<close>, \<open>CbError\<close>), what the HTTP layer does to the response
  (\<open>res.json\<close> with its status, \<open>res.writeHead\<close>, \<open>res.write\<close> with the
  object it serialises, \<open>res.end\<close>), and the run of the request's \<open>close\<close>
  listener. Console output is not modelled. The callbacks that the program passes never
  throw and never touch the caller's variables, so an invocation is an event of the trace
  and the callee's control flow does not depend on it.

  The fetcher's progress object \<open>{page, totalFetched, hasMore}\<close> is a record.
\<close>

record progress =
  page :: nat
  totalFetched :: nat
  hasMore :: bool

datatype effect =
    ApiCall request
  | Sleep nat
  | OptProgress progress
  | OptVideos "jsval list"
  | CbProgress jsval
  | CbVideo jsval
  | CbComplete jsval
  | CbError jserror
  | ResJson nat jsval
  | ResWriteHead nat
  | ResWrite jsval
  | ResEnd
  | CloseEvent

text \<open>
  An async function either returns, throws, or stays pending: it awaits an upstream call
  that the script does not answer.
\<close>

datatype 'a outcome = Returned 'a | Threw jserror | Pending

type_synonym 'a comp = "effect list \<times> 'a outcome"

definition ret :: "'a \<Rightarrow> 'a comp" where
  "ret x = ([], Returned x)"

definition raise :: "jserror \<Rightarrow> 'a comp" where
  "raise e = ([], Threw e)"

definition emit :: "effect \<Rightarrow> unit comp" where
  "emit ev = ([ev], Returned ())"

definition liftE :: "jserror + 'a \<Rightarrow> 'a comp" where
  "liftE r = (case r of Inl e \<Rightarrow> ([], Threw e) | Inr x \<Rightarrow> ([], Returned x))"

fun andThen :: "'a comp \<Rightarrow> ('a \<Rightarrow> 'b comp) \<Rightarrow> 'b comp" where
  "andThen (t, Returned x) f = (case f x of (t', r) \<Rightarrow> (t @ t', r))"
| "andThen (t, Threw e) f = (t, Threw e)"
| "andThen (t, Pending) f = (t, Pending)"

text \<open>\<open>try { body } catch (error) { handler(error) }\<close>\<close>

fun tryCatch :: "'a comp \<Rightarrow> (jserror \<Rightarrow> 'a comp) \<Rightarrow> 'a comp" where
  "tryCatch (t, Threw e) h = (case h e of (t', r) \<Rightarrow> (t @ t', r))"
| "tryCatch (t, r) h = (t, r)"

text \<open>\<open>await\<close> of an upstream call that the script answers with \<open>r\<close>.\<close>

definition await :: "request \<Rightarrow> reply \<Rightarrow> apiData comp" where
  "await req r = ([ApiCall req], case r of Inl e \<Rightarrow> Threw e | Inr d \<Rightarrow> Returned d)"

section \<open>Channel resolver\<close>

text \<open>
  The search for a channel by text, \<open>getChannelId\<close>'s last step. \<open>r\<close> is the upstream's
  reply to it.
\<close>

definition channelSearch :: "reply \<Rightarrow> string \<Rightarrow> string \<Rightarrow> jsval comp" where
  "channelSearch r input channelIdentifier =
     andThen (await (SearchChannels channelIdentifier) r) (\<lambda>d.
       case data_items d of
         Some (first # rest) \<Rightarrow> liftE (getPath first [''id'', ''channelId''])
       | _ \<Rightarrow> raise (JsError (''Channel not found: '' @ input)))"

text \<open>
  \<open>getChannelId(input)\<close>. Its \<open>catch\<close> logs and rethrows, which changes nothing here.
  A value that is not a string has no \<open>startsWith\<close> method, and the first test throws.
\<close>

definition getChannelId :: "reply \<Rightarrow> jsval \<Rightarrow> jsval comp" where
  "getChannelId r input =
     (case input of
        JStr s \<Rightarrow>
          if startsWith ''UC'' s \<and> length s = 24 then ret (JStr s)
          else if includesStr ''youtube.com/channel/'' s then
            andThen
              (liftE (bindE (part (splitStr ''youtube.com/channel/'' s) 1 ''split'') (\<lambda>a.
                      bindE (part (splitStr ''?'' a) 0 ''split'') (\<lambda>b.
                      part (splitStr ''/'' b) 0 ''startsWith''))))
              (\<lambda>channelIdentifier.
                 if startsWith ''UC'' channelIdentifier then ret (JStr channelIdentifier)
                 else channelSearch r s channelIdentifier)
          else if includesStr ''youtube.com/c/'' s \<or> includesStr ''youtube.com/@'' s then
            andThen
              (liftE (bindE (part (splitStr ''youtube.com/'' s) 1 ''split'') (\<lambda>a.
                      bindE (part (splitStr ''?'' a) 0 ''split'') (\<lambda>b.
                      part (splitStr ''/'' b) 0 ''startsWith''))))
              (\<lambda>channelIdentifier.
                 channelSearch r s
                   (if startsWith ''@'' channelIdentifier then drop 1 channelIdentifier
                    else channelIdentifier))
          else channelSearch r s s
      | JUndefined \<Rightarrow> raise (cannotRead ''undefined'' ''startsWith'')
      | JNull \<Rightarrow> raise (cannotRead ''null'' ''startsWith'')
      | _ \<Rightarrow> raise (JsTypeError ''input.startsWith is not a function''))"

section \<open>Channel info accessor\<close>

text \<open>\<open>getChannelInfo(channelId)\<close>; \<open>r\<close> is the reply to its \<open>channels.list\<close> call.\<close>

definition channelInfoOf :: "jsval \<Rightarrow> jserror + jsval" where
  "channelInfoOf channel =
     bindE (getPath channel [''id'']) (\<lambda>cid.
     bindE (getPath channel [''snippet'', ''title'']) (\<lambda>title.
     bindE (getPath channel [''snippet'', ''description'']) (\<lambda>description.
     bindE (getPath channel [''snippet'', ''thumbnails'', ''default'', ''url'']) (\<lambda>thumbnail.
     bindE (getPath channel [''statistics'', ''subscriberCount'']) (\<lambda>subscriberCount.
     bindE (getPath channel [''statistics'', ''videoCount'']) (\<lambda>videoCount.
     bindE (getPath channel [''statistics'', ''viewCount'']) (\<lambda>viewCount.
     Inr (JObj [(''id'', cid), (''title'', title), (''description'', description),
                (''thumbnail'', thumbnail), (''subscriberCount'', subscriberCount),
                (''videoCount'', videoCount), (''viewCount'', viewCount)]))))))))"

definition getChannelInfo :: "reply \<Rightarrow> jsval \<Rightarrow> jsval comp" where
  "getChannelInfo r channelId =
     andThen (await (ChannelsList channelId) r) (\<lambda>d.
       case data_items d of
         Some (channel # rest) \<Rightarrow> liftE (channelInfoOf channel)
       | _ \<Rightarrow> raise (JsError (''Channel not found: '' @ jsToString channelId)))"

section \<open>Detail batch fetcher\<close>

text \<open>The callback of \<open>response.data.items.map\<close> in \<open>getVideoDetails\<close>.\<close>

definition videoDetail :: "jsval \<Rightarrow> jserror + jsval" where
  "videoDetail video =
     bindE (getPath video [''id'']) (\<lambda>vid.
     bindE (getPath video [''snippet'', ''title'']) (\<lambda>title.
     bindE (getPath video [''snippet'', ''description'']) (\<lambda>description.
     bindE (getPath video [''snippet'', ''publishedAt'']) (\<lambda>publishedAt.
     bindE (getPath video [''snippet'', ''thumbnails'', ''default'', ''url'']) (\<lambda>thumbnail.
     bindE (getPath video [''contentDetails'', ''duration'']) (\<lambda>duration.
     bindE (getPath video [''statistics'', ''viewCount'']) (\<lambda>viewCount.
     bindE (getPath video [''statistics'', ''likeCount'']) (\<lambda>likeCount.
     bindE (getPath video [''statistics'', ''commentCount'']) (\<lambda>commentCount.
     bindE (getPath video [''snippet'', ''tags'']) (\<lambda>tags.
     Inr (JObj [(''id'', vid), (''title'', title), (''description'', description),
                (''publishedAt'', publishedAt), (''thumbnail'', thumbnail),
                (''duration'', duration), (''viewCount'', viewCount),
                (''likeCount'', likeCount), (''commentCount'', commentCount),
                (''tags'', orElse tags (JArr []))])))))))))))"

text \<open>
  \<open>getVideoDetails(videoIds)\<close>; \<open>r\<close> is the reply to its \<open>videos.list\<close> call. A
  response without \<open>items\<close> makes \<open>items.map\<close> throw.
\<close>

definition getVideoDetails :: "reply \<Rightarrow> string \<Rightarrow> jsval list comp" where
  "getVideoDetails r videoIds =
     andThen (await (VideosList videoIds) r) (\<lambda>d.
       case data_items d of
         None \<Rightarrow> raise (cannotRead ''undefined'' ''map'')
       | Some its \<Rightarrow> liftE (mapE videoDetail its))"

section \<open>Paginated video fetcher\<close>

record options =
  maxResults :: int
  order :: string
  publishedAfter :: jsval
  publishedBefore :: jsval
  includeDetails :: bool

text \<open>The \<open>searchParams\<close> object of one page's call.\<close>

definition searchParamsOf :: "options \<Rightarrow> jsval \<Rightarrow> jsval \<Rightarrow> searchParams" where
  "searchParamsOf opts channelId nextPageToken =
     \<lparr> sp_channelId = channelId,
       sp_order = order opts,
       sp_maxResults = min (maxResults opts) 50,
       sp_pageToken = nextPageToken,
       sp_publishedAfter = (if truthy (publishedAfter opts) then Some (publishedAfter opts) else None),
       sp_publishedBefore = (if truthy (publishedBefore opts) then Some (publishedBefore opts) else None) \<rparr>"

text \<open>\<open>response.data.nextPageToken\<close> as a value.\<close>

definition tokenOf :: "apiData \<Rightarrow> jsval" where
  "tokenOf d = (case data_nextPageToken d of None \<Rightarrow> JUndefined | Some t \<Rightarrow> JStr t)"

text \<open>\<open>xs.find(p)\<close> for a predicate that may throw.\<close>

fun findE :: "(jsval \<Rightarrow> jserror + bool) \<Rightarrow> jsval list \<Rightarrow> jserror + jsval" where
  "findE p [] = Inr JUndefined"
| "findE p (x # xs) = bindE (p x) (\<lambda>b. if b then Inr x else findE p xs)"

text \<open>\<open>videos.map((video) => video.id.videoId).join(",")\<close>\<close>

definition videoIdsOf :: "jsval list \<Rightarrow> jserror + string" where
  "videoIdsOf videos =
     bindE (mapE (\<lambda>video. getPath video [''id'', ''videoId'']) videos) (\<lambda>ids.
     Inr (joinJs '','' ids))"

text \<open>
  The merge callback, the same text in both fetch loops:
  \<open>details = videoDetails.find((detail) => detail.id === video.id.videoId)\<close>, then
  \<open>{ ...video, ...details }\<close>.
\<close>

definition mergeVideo :: "jsval list \<Rightarrow> jsval \<Rightarrow> jserror + jsval" where
  "mergeVideo videoDetails video =
     bindE (findE (\<lambda>detail.
              bindE (getProp detail ''id'') (\<lambda>did.
              bindE (getPath video [''id'', ''videoId'']) (\<lambda>vid.
              Inr (strictEq did vid))))
            videoDetails) (\<lambda>details.
     Inr (JObj (spreadInto (spreadInto [] video) details)))"

text \<open>
  \<open>getAllChannelVideos\<close>: the \<open>do ... while (nextPageToken)\<close> loop, one scripted page
  per iteration. A page of the script is the reply to the iteration's \<open>search.list\<close> call
  and the reply that its \<open>videos.list\<close> call gets if the iteration makes one. When the
  script has no page left, the search call stays unanswered.
\<close>

fun getAllLoop ::
  "options \<Rightarrow> jsval \<Rightarrow> (reply \<times> reply) list \<Rightarrow> jsval list \<Rightarrow> jsval \<Rightarrow> nat \<Rightarrow> jsval list comp"
where
  "getAllLoop opts channelId [] allVideos nextPageToken pageCount =
     ([ApiCall (SearchVideos (searchParamsOf opts channelId nextPageToken))], Pending)"
| "getAllLoop opts channelId ((sr, dr) # pages) allVideos nextPageToken pageCount =
     andThen (await (SearchVideos (searchParamsOf opts channelId nextPageToken)) sr) (\<lambda>d.
     andThen
       (case data_items d of
          Some (v # vs) \<Rightarrow>
            andThen
              (if includeDetails opts then
                 andThen (liftE (videoIdsOf (v # vs))) (\<lambda>videoIds.
                 andThen (getVideoDetails dr videoIds) (\<lambda>videoDetails.
                 liftE (mapE (mergeVideo videoDetails) (v # vs))))
               else ret (v # vs))
              (\<lambda>videos. ret (allVideos @ videos))
        | _ \<Rightarrow> ret allVideos)
       (\<lambda>allVideos'.
          if truthy (tokenOf d) then
            andThen (emit (Sleep 100)) (\<lambda>_.
            getAllLoop opts channelId pages allVideos' (tokenOf d) (Suc pageCount))
          else ret allVideos'))"

definition getAllChannelVideos ::
  "options \<Rightarrow> jsval \<Rightarrow> (reply \<times> reply) list \<Rightarrow> jsval list comp" where
  "getAllChannelVideos opts channelId pages = getAllLoop opts channelId pages [] JNull 0"

text \<open>
  \<open>streamAllChannelVideos\<close>: the same loop with \<open>onProgress\<close> at the head of every
  iteration and \<open>onVideos\<close> after the page is accumulated.
\<close>

fun streamLoop ::
  "options \<Rightarrow> jsval \<Rightarrow> (reply \<times> reply) list \<Rightarrow> jsval list \<Rightarrow> jsval \<Rightarrow> nat \<Rightarrow> jsval list comp"
where
  "streamLoop opts channelId [] allVideos nextPageToken pageCount =
     ([OptProgress \<lparr> page = Suc pageCount, totalFetched = length allVideos,
                      hasMore = truthy nextPageToken \<rparr>,
       ApiCall (SearchVideos (searchParamsOf opts channelId nextPageToken))], Pending)"
| "streamLoop opts channelId ((sr, dr) # pages) allVideos nextPageToken pageCount =
     andThen (emit (OptProgress \<lparr> page = Suc pageCount, totalFetched = length allVideos,
                                  hasMore = truthy nextPageToken \<rparr>)) (\<lambda>_.
     andThen (await (SearchVideos (searchParamsOf opts channelId nextPageToken)) sr) (\<lambda>d.
     andThen
       (case data_items d of
          Some (v # vs) \<Rightarrow>
            andThen
              (if includeDetails opts then
                 andThen (liftE (videoIdsOf (v # vs))) (\<lambda>videoIds.
                 andThen (getVideoDetails dr videoIds) (\<lambda>videoDetails.
                 liftE (mapE (mergeVideo videoDetails) (v # vs))))
               else ret (v # vs))
              (\<lambda>videos.
                 andThen (emit (OptVideos videos)) (\<lambda>_.
                 ret (allVideos @ videos)))
        | _ \<Rightarrow> ret allVideos)
       (\<lambda>allVideos'.
          if truthy (tokenOf d) then
            andThen (emit (Sleep 100)) (\<lambda>_.
            streamLoop opts channelId pages allVideos' (tokenOf d) (Suc pageCount))
          else ret allVideos')))"

definition streamAllChannelVideos ::
  "options \<Rightarrow> jsval \<Rightarrow> (reply \<times> reply) list \<Rightarrow> jsval list comp" where
  "streamAllChannelVideos opts channelId pages = streamLoop opts channelId pages [] JNull 0"

section \<open>The library functions\<close>

text \<open>
  One fetch session's upstream: the reply to the resolver's channel search (if it makes
  one), the reply to the channel info call, and the scripted pages.
\<close>

record upstream =
  lookupReply :: reply
  infoReply :: reply
  pageReplies :: "(reply \<times> reply) list"

text \<open>The options both library functions pass.\<close>

definition libOptions :: options where
  "libOptions = \<lparr> maxResults = 50, order = ''date'', publishedAfter = JNull,
                  publishedBefore = JNull, includeDetails = True \<rparr>"

text \<open>The body of the \<open>try\<close> block of \<open>fetchYoutubeVideos\<close>.\<close>

definition fetchBody :: "upstream \<Rightarrow> jsval \<Rightarrow> jsval comp" where
  "fetchBody up channelInput =
     andThen (getChannelId (lookupReply up) channelInput) (\<lambda>channelId.
     andThen (getChannelInfo (infoReply up) channelId) (\<lambda>channelInfo.
     andThen (getAllChannelVideos libOptions channelId (pageReplies up)) (\<lambda>videos.
     ret (JArr videos))))"

text \<open>
  \<open>fetchYoutubeVideos(channelInput)\<close>. Its \<open>catch\<close> block logs the error and falls off
  the end of the function, which then returns \<open>undefined\<close>.
\<close>

definition fetchYoutubeVideos :: "upstream \<Rightarrow> jsval \<Rightarrow> jsval comp" where
  "fetchYoutubeVideos up channelInput =
     tryCatch (fetchBody up channelInput) (\<lambda>error. ret JUndefined)"

text \<open>
  The callbacks \<open>streamYoutubeVideos\<close> hands to the fetcher: \<open>onProgress\<close> wraps the
  progress object, \<open>onVideos\<close> calls \<open>onVideo\<close> for each video of the batch.
\<close>

fun relay :: "effect \<Rightarrow> effect list" where
  "relay (OptProgress p) =
     [CbProgress (JObj
        [(''stage'', JStr ''videos_progress''),
         (''message'', JStr (''Fetching page '' @ showNat (page p) @ ''... (''
                              @ showNat (totalFetched p) @ '' videos so far)'')),
         (''page'', JNum (int (page p))),
         (''totalFetched'', JNum (int (totalFetched p))),
         (''hasMore'', JBool (hasMore p))])]"
| "relay (OptVideos videos) = map CbVideo videos"
| "relay e = [e]"

definition relayed :: "'a comp \<Rightarrow> 'a comp" where
  "relayed c = (concat (map relay (fst c)), snd c)"

text \<open>The body of the \<open>try\<close> block of \<open>streamYoutubeVideos\<close>.\<close>

definition streamBody :: "upstream \<Rightarrow> jsval \<Rightarrow> unit comp" where
  "streamBody up channelInput =
     andThen (emit (CbProgress (JObj
        [(''stage'', JStr ''channel_lookup''),
         (''message'', JStr (''Looking up channel: '' @ jsToString channelInput))]))) (\<lambda>_.
     andThen (getChannelId (lookupReply up) channelInput) (\<lambda>channelId.
     andThen (emit (CbProgress (JObj
        [(''stage'', JStr ''channel_info''),
         (''message'', JStr ''Fetching channel information...'')]))) (\<lambda>_.
     andThen (getChannelInfo (infoReply up) channelId) (\<lambda>channelInfo.
     andThen (liftE (getProp channelInfo ''title'')) (\<lambda>title.
     andThen (emit (CbProgress (JObj
        [(''stage'', JStr ''channel_ready''),
         (''message'', JStr (''Channel found: '' @ jsToString title)),
         (''channelInfo'', channelInfo)]))) (\<lambda>_.
     andThen (emit (CbProgress (JObj
        [(''stage'', JStr ''videos_start''),
         (''message'', JStr ''Starting video fetch...'')]))) (\<lambda>_.
     andThen (relayed (streamAllChannelVideos libOptions channelId (pageReplies up))) (\<lambda>_.
     emit (CbComplete (JObj
        [(''message'', JStr ''All videos fetched successfully''),
         (''channelInfo'', channelInfo)]))))))))))"

definition streamYoutubeVideos :: "upstream \<Rightarrow> jsval \<Rightarrow> unit comp" where
  "streamYoutubeVideos up channelInput =
     tryCatch (streamBody up channelInput) (\<lambda>error. emit (CbError error))"

section \<open>The HTTP routes\<close>

text \<open>
  \<open>GET /api/videos\<close>: \<open>res.json(videos)\<close> with whatever \<open>fetchYoutubeVideos\<close>
  returned; the status is the default, 200.
\<close>

definition videosRoute :: "upstream \<Rightarrow> jsval \<Rightarrow> unit comp" where
  "videosRoute up channel =
     andThen (fetchYoutubeVideos up channel) (\<lambda>videos. emit (ResJson 200 videos))"

text \<open>
  \<open>GET /api/videos/stream\<close>: the four callbacks of the route, with the route's
  \<open>videoCount\<close> as the state. \<open>serve n t\<close> runs the callbacks invoked in \<open>t\<close>
  starting from \<open>videoCount = n\<close>.
\<close>

fun serve :: "nat \<Rightarrow> effect list \<Rightarrow> effect list" where
  "serve videoCount [] = []"
| "serve videoCount (CbProgress p # es) =
     ResWrite (JObj (spreadInto [(''type'', JStr ''progress'')] p)) # serve videoCount es"
| "serve videoCount (CbVideo video # es) =
     ResWrite (JObj [(''type'', JStr ''video''), (''video'', video),
                     (''count'', JNum (int (Suc videoCount)))])
       # serve (Suc videoCount) es"
| "serve videoCount (CbComplete result # es) =
     ResWrite (JObj (setProp ''totalVideos'' (JNum (int videoCount))
                       (spreadInto [(''type'', JStr ''complete'')] result)))
       # ResEnd # serve videoCount es"
| "serve videoCount (CbError error # es) =
     ResWrite (JObj [(''type'', JStr ''error''), (''message'', JStr (errMessage error))])
       # ResEnd # serve videoCount es"
| "serve videoCount (e # es) = e # serve videoCount es"

definition connected :: jsval where
  "connected = JObj [(''type'', JStr ''connected''), (''message'', JStr ''Stream started'')]"

definition streamRoute :: "upstream \<Rightarrow> jsval \<Rightarrow> effect list" where
  "streamRoute up channelInput =
     (if \<not> truthy channelInput then
        [ResJson 400 (JObj [(''error'', JStr ''Channel parameter is required'')])]
      else
        ResWriteHead 200 # ResWrite connected
          # serve 0 (fst (streamYoutubeVideos up channelInput)))"

text \<open>
  The consumer's side of a streaming session. After it has started
  \<open>streamYoutubeVideos\<close> the route registers a \<open>close\<close> listener on the request;
  a request without a \<open>channel\<close> is answered before that. The listener writes a line to
  the console and does nothing else: it assigns no variable and it is handed no handle on
  the fetch. It runs once, between two steps of the session: when the consumer
  disconnects, which can only be noticed while the session waits for an upstream call or
  for the delay, or else after the response has ended.

  \<open>closeDuring k t\<close>: the consumer disconnects during wait number \<open>k\<close> (from 0) of
  the trace, or, when the trace has no such wait, after its last step.
\<close>

fun isWait :: "effect \<Rightarrow> bool" where
  "isWait (ApiCall c) = True"
| "isWait (Sleep ms) = True"
| "isWait e = False"

fun closeDuring :: "nat \<Rightarrow> effect list \<Rightarrow> effect list" where
  "closeDuring k [] = [CloseEvent]"
| "closeDuring k (e # es) =
     (if isWait e then
        (case k of
           0 \<Rightarrow> e # CloseEvent # es
         | Suc j \<Rightarrow> e # closeDuring j es)
      else e # closeDuring k es)"

text \<open>
  A session with a consumer that disconnects during wait \<open>k\<close> (\<open>Some k\<close>), or that
  stays to the end (\<open>None\<close>): then the listener runs when the response has ended, and
  never while an upstream call stays unanswered.
\<close>

definition streamSession :: "upstream \<Rightarrow> jsval \<Rightarrow> nat option \<Rightarrow> effect list" where
  "streamSession up channelInput disconnect =
     (if \<not> truthy channelInput then streamRoute up channelInput
      else
        (case disconnect of
           Some k \<Rightarrow> closeDuring k (streamRoute up channelInput)
         | None \<Rightarrow>
             if ResEnd \<in> set (streamRoute up channelInput)
             then streamRoute up channelInput @ [CloseEvent]
             else streamRoute up channelInput))"

section \<open>Vocabulary of the properties\<close>

text \<open>
  One iteration's page step, the text that both loops share: the page's videos, merged
  with their details when \<open>includeDetails\<close> is set, or no video when the response has
  no item. The loops above spell it out; \<open>getAllLoop_Cons\<close> and \<open>streamLoop_Cons\<close>
  below show that they run exactly this.
\<close>

definition pageVideos :: "options \<Rightarrow> reply \<Rightarrow> apiData \<Rightarrow> jsval list comp" where
  "pageVideos opts dr d =
     (case data_items d of
        Some (v # vs) \<Rightarrow>
          (if includeDetails opts then
             andThen (liftE (videoIdsOf (v # vs))) (\<lambda>videoIds.
             andThen (getVideoDetails dr videoIds) (\<lambda>videoDetails.
             liftE (mapE (mergeVideo videoDetails) (v # vs))))
           else ret (v # vs))
      | _ \<Rightarrow> ret [])"

text \<open>The stream loop calls \<open>onVideos\<close> exactly for a page that has videos.\<close>

definition notify :: "jsval list \<Rightarrow> unit comp" where
  "notify videos = (if videos = [] then ret () else emit (OptVideos videos))"

fun isApiCall :: "effect \<Rightarrow> bool" where
  "isApiCall (ApiCall c) = True"
| "isApiCall e = False"

fun isSearchVideos :: "effect \<Rightarrow> bool" where
  "isSearchVideos (ApiCall (SearchVideos ps)) = True"
| "isSearchVideos e = False"

text \<open>The number of paginated search calls in a trace.\<close>

definition searchCalls :: "effect list \<Rightarrow> nat" where
  "searchCalls t = length (filter isSearchVideos t)"

text \<open>The videos handed to \<open>onVideos\<close> in a trace, batch after batch.\<close>

fun delivered :: "effect list \<Rightarrow> jsval list" where
  "delivered [] = []"
| "delivered (OptVideos videos # es) = videos @ delivered es"
| "delivered (e # es) = delivered es"

text \<open>The items of a search reply; none when it rejects or has no \<open>items\<close>.\<close>

definition itemsOf :: "reply \<Rightarrow> jsval list" where
  "itemsOf sr =
     (case sr of
        Inl e \<Rightarrow> []
      | Inr d \<Rightarrow> (case data_items d of None \<Rightarrow> [] | Some its \<Rightarrow> its))"

text \<open>The detail batch that \<open>getVideoDetails\<close> builds from a reply; empty when it throws.\<close>

definition detailsOf :: "reply \<Rightarrow> jsval list" where
  "detailsOf dr =
     (case dr of
        Inl e \<Rightarrow> []
      | Inr d \<Rightarrow>
          (case data_items d of
             None \<Rightarrow> []
           | Some its \<Rightarrow> (case mapE videoDetail its of Inl e \<Rightarrow> [] | Inr ds \<Rightarrow> ds)))"

text \<open>\<open>detail.id === video.id.videoId\<close>, where both sides can be read.\<close>

definition matches :: "jsval \<Rightarrow> jsval \<Rightarrow> bool" where
  "matches video detail =
     (case getProp detail ''id'' of
        Inl e \<Rightarrow> False
      | Inr did \<Rightarrow>
          (case getPath video [''id'', ''videoId''] of
             Inl e \<Rightarrow> False
           | Inr vid \<Rightarrow> strictEq did vid))"

text \<open>
  The merged record of a video: \<open>{ ...video, ...details }\<close> with the first matching
  record of the batch as \<open>details\<close>, and \<open>{ ...video }\<close> when none matches.
\<close>

definition merged :: "jsval list \<Rightarrow> jsval \<Rightarrow> jsval" where
  "merged ds video =
     JObj (spreadInto (spreadInto [] video)
            (case find (matches video) ds of None \<Rightarrow> JUndefined | Some d \<Rightarrow> d))"

text \<open>What one scripted page contributes to the output of a run that gets past it.\<close>

definition pageOutput :: "options \<Rightarrow> reply \<times> reply \<Rightarrow> jsval list" where
  "pageOutput opts pg =
     (if includeDetails opts then map (merged (detailsOf (snd pg))) (itemsOf (fst pg))
      else itemsOf (fst pg))"

text \<open>
  A scripted page lets the iteration through: the search call resolves and, when the page
  has items and details are asked for, every item has an \<open>id\<close> to read \<open>videoId\<close>
  from, the detail call resolves with \<open>items\<close>, and every detail item has the parts
  that \<open>getVideoDetails\<close> reads.
\<close>

definition pageSucceeds :: "options \<Rightarrow> reply \<times> reply \<Rightarrow> bool" where
  "pageSucceeds opts pg =
     (case fst pg of
        Inl e \<Rightarrow> False
      | Inr d \<Rightarrow>
          (case data_items d of
             Some (v # vs) \<Rightarrow>
               (if includeDetails opts then
                  \<not> isl (videoIdsOf (v # vs)) \<and>
                  (case snd pg of
                     Inl e \<Rightarrow> False
                   | Inr dd \<Rightarrow>
                       (case data_items dd of
                          None \<Rightarrow> False
                        | Some its \<Rightarrow> \<not> isl (mapE videoDetail its)))
                else True)
           | _ \<Rightarrow> True))"

text \<open>The page's response carries a continuation cursor that keeps the loop going.\<close>

definition hasCursor :: "reply \<times> reply \<Rightarrow> bool" where
  "hasCursor pg = (case fst pg of Inl e \<Rightarrow> False | Inr d \<Rightarrow> truthy (tokenOf d))"

text \<open>The keys of a detail record, in the order \<open>getVideoDetails\<close> writes them.\<close>

definition detailKeys :: "string list" where
  "detailKeys = [''id'', ''title'', ''description'', ''publishedAt'', ''thumbnail'',
                 ''duration'', ''viewCount'', ''likeCount'', ''commentCount'', ''tags'']"

text \<open>The invocations of the fetcher's two callbacks.\<close>

fun isCallback :: "effect \<Rightarrow> bool" where
  "isCallback (OptProgress p) = True"
| "isCallback (OptVideos videos) = True"
| "isCallback e = False"

text \<open>
  A check that walks a trace with the number \<open>k\<close> of search calls and the number
  \<open>fetched\<close> of videos handed to \<open>onVideos\<close> so far: every progress notification
  carries page \<open>k + 1\<close> and total \<open>fetched\<close> and stands immediately before a search call.
\<close>

fun progressAtHead :: "nat \<Rightarrow> nat \<Rightarrow> effect list \<Rightarrow> bool" where
  "progressAtHead k fetched [] = True"
| "progressAtHead k fetched (OptProgress p # es) =
     (page p = Suc k \<and> totalFetched p = fetched
      \<and> (case es of ApiCall (SearchVideos ps) # rest \<Rightarrow> True | _ \<Rightarrow> False)
      \<and> progressAtHead k fetched es)"
| "progressAtHead k fetched (ApiCall (SearchVideos ps) # es) = progressAtHead (Suc k) fetched es"
| "progressAtHead k fetched (OptVideos videos # es) = progressAtHead k (fetched + length videos) es"
| "progressAtHead k fetched (e # es) = progressAtHead k fetched es"

text \<open>
  A second check on a trace: every paginated search call stands immediately after a
  progress notification. \<open>b\<close> tells whether the step before was one.
\<close>

fun callsAnnounced :: "bool \<Rightarrow> effect list \<Rightarrow> bool" where
  "callsAnnounced b [] = True"
| "callsAnnounced b (OptProgress p # es) = callsAnnounced True es"
| "callsAnnounced b (ApiCall (SearchVideos ps) # es) = (b \<and> callsAnnounced False es)"
| "callsAnnounced b (e # es) = callsAnnounced False es"

text \<open>The objects written to the response with \<open>res.write\<close>, in order.\<close>

fun written :: "effect list \<Rightarrow> jsval list" where
  "written [] = []"
| "written (ResWrite ev # es) = ev # written es"
| "written (e # es) = written es"

text \<open>The \<open>type\<close> field of a written event.\<close>

definition evType :: "jsval \<Rightarrow> jsval" where
  "evType ev = (case getProp ev ''type'' of Inl e \<Rightarrow> JUndefined | Inr v \<Rightarrow> v)"

text \<open>An object without a \<open>type\<close> property: spreading it leaves \<open>type\<close> alone.\<close>

fun noTypeKey :: "jsval \<Rightarrow> bool" where
  "noTypeKey (JObj kvs) = (''type'' \<notin> set (map fst kvs))"
| "noTypeKey v = False"

text \<open>
  What the \<open>try\<close> block of \<open>streamYoutubeVideos\<close> does before its last step:
  upstream calls, delays, progress callbacks with an object without \<open>type\<close>, and
  video callbacks.
\<close>

fun sessionEvent :: "effect \<Rightarrow> bool" where
  "sessionEvent (ApiCall c) = True"
| "sessionEvent (Sleep ms) = True"
| "sessionEvent (CbProgress p) = noTypeKey p"
| "sessionEvent (CbVideo video) = True"
| "sessionEvent e = False"

text \<open>What the stream loop does: upstream calls, delays and its two callbacks.\<close>

fun loopEvent :: "effect \<Rightarrow> bool" where
  "loopEvent (ApiCall c) = True"
| "loopEvent (Sleep ms) = True"
| "loopEvent (OptProgress p) = True"
| "loopEvent (OptVideos videos) = True"
| "loopEvent e = False"

fun isCbVideo :: "effect \<Rightarrow> bool" where
  "isCbVideo (CbVideo video) = True"
| "isCbVideo e = False"

text \<open>
  The shape of a run of the \<open>try\<close> block: session events only, closed by exactly one
  \<open>onComplete\<close> when, and only when, the block returns. (A predicate of the proofs;
  nothing evaluates it.)
\<close>

definition bodyShape :: "unit comp \<Rightarrow> bool" where
  "bodyShape c =
     (case snd c of
        Returned u \<Rightarrow> (\<exists>mid x. fst c = mid @ [CbComplete x] \<and> list_all sessionEvent mid \<and> noTypeKey x)
      | Threw e \<Rightarrow> list_all sessionEvent (fst c)
      | Pending \<Rightarrow> list_all sessionEvent (fst c))"

section \<open>Sample upstream replies\<close>

text \<open>
  Replies of the shape the upstream API gives, for the worked examples: a search result
  and a \<open>videos.list\<close> item for a video id, a scripted page with the search results
  for \<open>vids\<close> and the detail items for \<open>dids\<close>, a channel of 73 videos served in
  pages of 50 and 23, the record that \<open>getVideoDetails\<close> builds from a sample detail
  item, scripts of two and three pages, a \<open>channels.list\<close> item, and an upstream whose
  channel search is rejected.
\<close>

definition sampleItem :: "string \<Rightarrow> jsval" where
  "sampleItem vid =
     JObj [(''kind'', JStr ''youtube#searchResult''),
           (''id'', JObj [(''kind'', JStr ''youtube#video''), (''videoId'', JStr vid)]),
           (''snippet'', JObj [(''title'', JStr vid)])]"

definition sampleDetailItem :: "string \<Rightarrow> jsval" where
  "sampleDetailItem vid =
     JObj [(''id'', JStr vid),
           (''snippet'', JObj [(''title'', JStr vid),
                               (''thumbnails'', JObj [(''default'', JObj [(''url'', JStr ''u'')])])]),
           (''contentDetails'', JObj [(''duration'', JStr ''PT1M'')]),
           (''statistics'', JObj [(''viewCount'', JStr ''5'')])]"

definition samplePage :: "string list \<Rightarrow> string list \<Rightarrow> string option \<Rightarrow> reply \<times> reply" where
  "samplePage vids dids tok =
     (Inr \<lparr> data_items = Some (map sampleItem vids), data_nextPageToken = tok \<rparr>,
      Inr \<lparr> data_items = Some (map sampleDetailItem dids), data_nextPageToken = None \<rparr>)"

definition channel73 :: "(reply \<times> reply) list" where
  "channel73 =
     [samplePage (map showNat [0..<50]) (map showNat [0..<50]) (Some ''CDIQAA''),
      samplePage (map showNat [50..<73]) (map showNat [50..<73]) None]"

definition sampleDetail :: "string \<Rightarrow> jsval" where
  "sampleDetail vid =
     JObj [(''id'', JStr vid), (''title'', JStr vid), (''description'', JUndefined),
           (''publishedAt'', JUndefined), (''thumbnail'', JStr ''u''),
           (''duration'', JStr ''PT1M''), (''viewCount'', JStr ''5''),
           (''likeCount'', JUndefined), (''commentCount'', JUndefined), (''tags'', JArr [])]"

definition twoPages :: "(reply \<times> reply) list" where
  "twoPages = [samplePage [''a'', ''b''] [''b''] (Some ''CAIQAA''), samplePage [''c''] [''c''] None]"

definition sampleChannel :: jsval where
  "sampleChannel =
     JObj [(''id'', JStr ''UCBJycsmduvYEL83R_U4JriQ''),
           (''snippet'', JObj [(''title'', JStr ''MKBHD''), (''description'', JStr ''tech''),
                               (''thumbnails'', JObj [(''default'', JObj [(''url'', JStr ''u'')])])]),
           (''statistics'', JObj [(''subscriberCount'', JStr ''19000000''),
                                  (''videoCount'', JStr ''1700''),
                                  (''viewCount'', JStr ''4000000000'')])]"

definition threePages :: "(reply \<times> reply) list" where
  "threePages = [samplePage [''a'', ''b''] [''b''] (Some ''CAIQAA''),
                 samplePage [''c''] [''c''] (Some ''CAMQAA''),
                 samplePage [''d''] [] None]"

definition sampleUpstream :: "(reply \<times> reply) list \<Rightarrow> upstream" where
  "sampleUpstream pages =
     \<lparr> lookupReply = Inl (JsError ''quotaExceeded''),
       infoReply = Inr \<lparr> data_items = Some [sampleChannel], data_nextPageToken = None \<rparr>,
       pageReplies = pages \<rparr>"

section \<open>Sequencing lemmas\<close>

lemma andThen_ret [simp]: "andThen (ret x) f = f x"
  by (cases "f x") (simp add: ret_def)

lemma andThen_ret_right [simp]: "andThen m ret = m"
proof (cases m)
  case (Pair t r)
  then show ?thesis by (cases r) (simp_all add: ret_def)
qed

lemma andThen_assoc: "andThen (andThen m f) g = andThen m (\<lambda>x. andThen (f x) g)"
proof (cases m)
  case (Pair t r)
  show ?thesis
  proof (cases r)
    case (Returned x)
    obtain t1 r1 where fx: "f x = (t1, r1)" by (cases "f x")
    show ?thesis
      using Pair Returned fx by (cases r1) (auto split: prod.splits)
  qed (simp_all add: Pair)
qed

lemma andThen_raise [simp]: "andThen (raise e) f = raise e"
  by (simp add: raise_def)

lemma andThen_emit: "andThen (emit ev) f = (ev # fst (f ()), snd (f ()))"
  by (cases "f ()") (simp add: emit_def)

lemma andThen_Returned:
  "andThen m f = (t, Returned y) \<longleftrightarrow>
     (\<exists>t1 x t2. m = (t1, Returned x) \<and> f x = (t2, Returned y) \<and> t = t1 @ t2)"
proof (cases m)
  case (Pair t0 r)
  then show ?thesis by (cases r) (auto split: prod.splits)
qed

lemma mapE_length: "mapE f xs = Inr ys \<Longrightarrow> length ys = length xs"
proof (induction xs arbitrary: ys)
  case Nil
  then show ?case by simp
next
  case (Cons x xs)
  then show ?case
    by (cases "f x"; cases "mapE f xs") auto
qed

lemma mapE_map: "\<forall>x\<in>set xs. f x = Inr (g x) \<Longrightarrow> mapE f xs = Inr (map g xs)"
  by (induction xs) auto

lemma mapE_ok: "mapE f xs = Inr ys \<Longrightarrow> x \<in> set xs \<Longrightarrow> \<exists>y. f x = Inr y"
proof (induction xs arbitrary: ys)
  case Nil
  then show ?case by simp
next
  case (Cons a xs)
  then show ?case
    by (cases "f a"; cases "mapE f xs") auto
qed

lemma pageVideos_nonempty:
  assumes "pageVideos opts dr d = (t, Returned videos)"
  shows "videos = [] \<longleftrightarrow> (case data_items d of Some (v # vs) \<Rightarrow> False | _ \<Rightarrow> True)"
proof (cases "data_items d")
  case None
  with assms show ?thesis by (simp add: pageVideos_def ret_def)
next
  case (Some its)
  show ?thesis
  proof (cases its)
    case Nil
    with Some assms show ?thesis by (simp add: pageVideos_def ret_def)
  next
    case (Cons v vs)
    show ?thesis
    proof (cases "includeDetails opts")
      case False
      with Some Cons assms show ?thesis by (auto simp: pageVideos_def ret_def)
    next
      case True
      with Some Cons assms obtain ds where "liftE (mapE (mergeVideo ds) (v # vs)) = ([], Returned videos) \<or> (\<exists>t2. liftE (mapE (mergeVideo ds) (v # vs)) = (t2, Returned videos))"
        by (auto simp: pageVideos_def andThen_Returned)
      then have "mapE (mergeVideo ds) (v # vs) = Inr videos"
        by (auto simp: liftE_def split: sum.splits)
      then have "length videos = length (v # vs)" by (rule mapE_length)
      with Some Cons show ?thesis by auto
    qed
  qed
qed

lemma getAllLoop_Cons:
  "getAllLoop opts cid ((sr, dr) # pages) acc tok n =
     andThen (await (SearchVideos (searchParamsOf opts cid tok)) sr) (\<lambda>d.
     andThen (pageVideos opts dr d) (\<lambda>videos.
       if truthy (tokenOf d) then
         andThen (emit (Sleep 100)) (\<lambda>_.
         getAllLoop opts cid pages (acc @ videos) (tokenOf d) (Suc n))
       else ret (acc @ videos)))"
  apply (simp only: getAllLoop.simps)
  apply (rule arg_cong [where f = "andThen _"])
  apply (rule ext)
  apply (simp add: pageVideos_def andThen_assoc split: option.splits list.splits)
  done

lemma streamLoop_Cons:
  "streamLoop opts cid ((sr, dr) # pages) acc tok n =
     andThen (emit (OptProgress \<lparr> page = Suc n, totalFetched = length acc,
                                  hasMore = truthy tok \<rparr>)) (\<lambda>_.
     andThen (await (SearchVideos (searchParamsOf opts cid tok)) sr) (\<lambda>d.
     andThen (pageVideos opts dr d) (\<lambda>videos.
     andThen (notify videos) (\<lambda>_.
       if truthy (tokenOf d) then
         andThen (emit (Sleep 100)) (\<lambda>_.
         streamLoop opts cid pages (acc @ videos) (tokenOf d) (Suc n))
       else ret (acc @ videos)))))"
proof -
  have step: "andThen
       (case data_items d of
          Some (v # vs) \<Rightarrow>
            andThen
              (if includeDetails opts then
                 andThen (liftE (videoIdsOf (v # vs))) (\<lambda>videoIds.
                 andThen (getVideoDetails dr videoIds) (\<lambda>videoDetails.
                 liftE (mapE (mergeVideo videoDetails) (v # vs))))
               else ret (v # vs))
              (\<lambda>videos.
                 andThen (emit (OptVideos videos)) (\<lambda>_.
                 ret (acc @ videos)))
        | _ \<Rightarrow> ret acc) k
     = andThen (pageVideos opts dr d) (\<lambda>videos.
       andThen (notify videos) (\<lambda>_. k (acc @ videos)))" for d k
  proof (cases "data_items d")
    case None
    then show ?thesis by (simp add: pageVideos_def notify_def)
  next
    case (Some its)
    show ?thesis
    proof (cases its)
      case Nil
      with Some show ?thesis by (simp add: pageVideos_def notify_def)
    next
      case (Cons v vs)
      have ne: "andThen (liftE (mapE f (v # vs))) (\<lambda>videos. andThen (notify videos) (g videos))
              = andThen (liftE (mapE f (v # vs))) (\<lambda>videos. andThen (emit (OptVideos videos)) (g videos))" for f g
      proof (cases "mapE f (v # vs)")
        case (Inl e)
        then show ?thesis by (simp add: liftE_def)
      next
        case (Inr ys)
        then have "ys \<noteq> []" using mapE_length by fastforce
        with Inr show ?thesis by (simp add: liftE_def notify_def)
      qed
      show ?thesis
      proof (cases "includeDetails opts")
        case True
        with Some Cons show ?thesis
          by (simp add: pageVideos_def andThen_assoc ne del: mapE.simps)
      next
        case False
        with Some Cons show ?thesis
          by (simp add: pageVideos_def notify_def andThen_assoc)
      qed
    qed
  qed
  show ?thesis
    by (simp only: streamLoop.simps step)
qed

section \<open>Properties of the channel resolver\<close>

lemma splitAcc_nonempty: "splitAcc sep piece s \<noteq> []"
  by (induction sep piece s rule: splitAcc.induct) auto

lemma splitAcc_two:
  "sep \<noteq> [] \<Longrightarrow> includesStr sep s \<Longrightarrow> \<exists>p a rest. splitAcc sep piece s = p # a # rest"
proof (induction sep piece s rule: splitAcc.induct)
  case (1 sep piece)
  then show ?case by simp
next
  case (2 sep piece c cs)
  show ?case
  proof (cases "startsWith sep (c # cs)")
    case True
    obtain a rest where "splitAcc sep [] (drop (length sep) (c # cs)) = a # rest"
      using splitAcc_nonempty by (meson list.exhaust)
    with True 2(3) show ?thesis by simp
  next
    case False
    with 2 show ?thesis by simp
  qed
qed

lemma splitAcc_head:
  "splitAcc sep piece s = a # rest \<Longrightarrow> \<exists>post. piece @ s = a @ post"
proof (induction sep piece s arbitrary: a rest rule: splitAcc.induct)
  case (1 sep piece)
  then show ?case by simp
next
  case (2 sep piece c cs)
  then show ?case by (auto split: if_splits)
qed

lemma splitAcc_second:
  "sep \<noteq> [] \<Longrightarrow> splitAcc sep piece s = p # a # rest \<Longrightarrow>
   \<exists>pre post. s = pre @ sep @ a @ post"
proof (induction sep piece s arbitrary: p a rest rule: splitAcc.induct)
  case (1 sep piece)
  then show ?case by simp
next
  case (2 sep piece c cs)
  show ?case
  proof (cases "startsWith sep (c # cs)")
    case True
    with 2(3,4) have s: "splitAcc sep [] (drop (length sep) (c # cs)) = a # rest"
      by simp
    then obtain post where "drop (length sep) (c # cs) = a @ post"
      using splitAcc_head by fastforce
    moreover have "c # cs = sep @ drop (length sep) (c # cs)"
      using True by (metis append_take_drop_id startsWith_def)
    ultimately have "c # cs = [] @ sep @ a @ post" by simp
    then show ?thesis by blast
  next
    case False
    with 2(3,4) have "splitAcc sep (piece @ [c]) cs = p # a # rest" by simp
    with 2(2) False 2(3) obtain pre post where "cs = pre @ sep @ a @ post" by blast
    then have "c # cs = (c # pre) @ sep @ a @ post" by simp
    then show ?thesis by blast
  qed
qed

lemma splitAcc_char:
  "\<exists>rest. splitAcc [c] piece s = (piece @ takeWhile (\<lambda>x. x \<noteq> c) s) # rest"
proof (induction s arbitrary: piece)
  case Nil
  then show ?case by simp
next
  case (Cons x xs)
  show ?case
  proof (cases "x = c")
    case True
    then show ?thesis by (simp add: startsWith_def)
  next
    case False
    with Cons [of "piece @ [x]"] show ?thesis by (simp add: startsWith_def)
  qed
qed

lemma part_split_char:
  "part (splitStr [c] s) 0 m = Inr (takeWhile (\<lambda>x. x \<noteq> c) s)"
  using splitAcc_char [of c "[]" s] by (auto simp: part_def splitStr_def)

lemma channelSearch_calls:
  "fst (channelSearch r input q) = [ApiCall (SearchChannels q)]"
  by (cases r) (auto simp: channelSearch_def await_def liftE_def raise_def
      split: option.splits list.splits sum.splits prod.splits)

text \<open>
  C7: an input of the canonical shape (it starts with \<open>UC\<close> and has 24 characters) is
  returned unchanged with no upstream call, whatever the upstream would reply; resolving
  the returned id again gives the same id, again with no call.
\<close>

theorem getChannelId_canonical:
  assumes "startsWith ''UC'' s" and "length s = 24"
  shows "getChannelId r (JStr s) = ([], Returned (JStr s))
       \<and> andThen (getChannelId r (JStr s)) (getChannelId r') = ([], Returned (JStr s))"
  using assms by (simp add: getChannelId_def ret_def)

theorem getChannelId_canonical_witness:
  "startsWith ''UC'' ''UCBJycsmduvYEL83R_U4JriQ'' \<and> length ''UCBJycsmduvYEL83R_U4JriQ'' = 24
   \<and> getChannelId (Inl (JsError ''offline'')) (JStr ''UCBJycsmduvYEL83R_U4JriQ'')
       = ([], Returned (JStr ''UCBJycsmduvYEL83R_U4JriQ''))"
proof -
  have a: "startsWith ''UC'' ''UCBJycsmduvYEL83R_U4JriQ''"
    by (simp add: startsWith_def)
  have b: "length ''UCBJycsmduvYEL83R_U4JriQ'' = 24"
    by simp
  show ?thesis
    using a b getChannelId_canonical [OF a b, of "Inl (JsError ''offline'')"] by simp
qed

text \<open>
  C8, as the code has it: for an input that contains \<open>youtube.com/channel/\<close> (and is
  not itself of the canonical shape, which the first test would return), the resolver
  takes the text after that segment, cuts it at the first \<open>?\<close> and then at the first
  \<open>/\<close>, and returns this component with no upstream call exactly when the component
  starts with \<open>UC\<close>; the component's length is not tested. Otherwise it searches for
  the component, with exactly one upstream call.
\<close>

theorem getChannelId_channel_url:
  assumes "includesStr ''youtube.com/channel/'' s"
    and "\<not> (startsWith ''UC'' s \<and> length s = 24)"
  shows "\<exists>a pre post.
      part (splitStr ''youtube.com/channel/'' s) 1 ''split'' = Inr a
    \<and> s = pre @ ''youtube.com/channel/'' @ a @ post
    \<and> (let component = takeWhile (\<lambda>c. c \<noteq> CHR ''/'') (takeWhile (\<lambda>c. c \<noteq> CHR ''?'') a) in
         getChannelId r (JStr s) =
           (if startsWith ''UC'' component then ([], Returned (JStr component))
            else channelSearch r s component)
       \<and> fst (channelSearch r s component) = [ApiCall (SearchChannels component)])"
proof -
  obtain p a rest where sp: "splitAcc ''youtube.com/channel/'' [] s = p # a # rest"
    using splitAcc_two [OF _ assms(1), of "[]"] by auto
  then obtain pre post where s: "s = pre @ ''youtube.com/channel/'' @ a @ post"
    using splitAcc_second [of "''youtube.com/channel/''" "[]" s p a rest] by auto
  have pa: "part (splitStr ''youtube.com/channel/'' s) 1 ''split'' = Inr a"
    using sp by (simp add: part_def splitStr_def)
  have "getChannelId r (JStr s) =
     (if startsWith ''UC'' (takeWhile (\<lambda>c. c \<noteq> CHR ''/'') (takeWhile (\<lambda>c. c \<noteq> CHR ''?'') a))
      then ([], Returned (JStr (takeWhile (\<lambda>c. c \<noteq> CHR ''/'') (takeWhile (\<lambda>c. c \<noteq> CHR ''?'') a))))
      else channelSearch r s (takeWhile (\<lambda>c. c \<noteq> CHR ''/'') (takeWhile (\<lambda>c. c \<noteq> CHR ''?'') a)))"
  proof -
    have nc: "(startsWith ''UC'' s \<and> length s = 24) = False"
      using assms(2) by simp
    show ?thesis
      using assms(1) pa
      by (cases "channelSearch r s (takeWhile (\<lambda>c. c \<noteq> CHR ''/'') (takeWhile (\<lambda>c. c \<noteq> CHR ''?'') a))")
         (simp add: getChannelId_def nc part_split_char liftE_def ret_def)
  qed
  with pa s show ?thesis
    unfolding Let_def using channelSearch_calls by blast
qed

theorem getChannelId_channel_url_witness:
  "includesStr ''youtube.com/channel/'' ''https://www.youtube.com/channel/UCBJycsmduvYEL83R_U4JriQ?si=abc''
   \<and> \<not> (startsWith ''UC'' ''https://www.youtube.com/channel/UCBJycsmduvYEL83R_U4JriQ?si=abc''
          \<and> length ''https://www.youtube.com/channel/UCBJycsmduvYEL83R_U4JriQ?si=abc'' = 24)
   \<and> getChannelId (Inl (JsError ''offline''))
         (JStr ''https://www.youtube.com/channel/UCBJycsmduvYEL83R_U4JriQ?si=abc'')
       = ([], Returned (JStr ''UCBJycsmduvYEL83R_U4JriQ''))"
proof -
  have a: "includesStr ''youtube.com/channel/''
             ''https://www.youtube.com/channel/UCBJycsmduvYEL83R_U4JriQ?si=abc''"
    by (simp add: startsWith_def)
  have b: "\<not> (startsWith ''UC'' ''https://www.youtube.com/channel/UCBJycsmduvYEL83R_U4JriQ?si=abc''
          \<and> length ''https://www.youtube.com/channel/UCBJycsmduvYEL83R_U4JriQ?si=abc'' = 24)"
    by (simp add: startsWith_def)
  from getChannelId_channel_url [OF a b, of "Inl (JsError ''offline'')"]
  obtain x pre post where
    p: "part (splitStr ''youtube.com/channel/''
          ''https://www.youtube.com/channel/UCBJycsmduvYEL83R_U4JriQ?si=abc'') 1 ''split'' = Inr x"
    and g: "let component = takeWhile (\<lambda>c. c \<noteq> CHR ''/'') (takeWhile (\<lambda>c. c \<noteq> CHR ''?'') x) in
         getChannelId (Inl (JsError ''offline''))
           (JStr ''https://www.youtube.com/channel/UCBJycsmduvYEL83R_U4JriQ?si=abc'') =
           (if startsWith ''UC'' component then ([], Returned (JStr component))
            else channelSearch (Inl (JsError ''offline''))
                   ''https://www.youtube.com/channel/UCBJycsmduvYEL83R_U4JriQ?si=abc'' component)
       \<and> fst (channelSearch (Inl (JsError ''offline''))
                   ''https://www.youtube.com/channel/UCBJycsmduvYEL83R_U4JriQ?si=abc'' component)
           = [ApiCall (SearchChannels component)]"
    by blast
  from p have x: "x = ''UCBJycsmduvYEL83R_U4JriQ?si=abc''"
    by (simp add: splitStr_def part_def startsWith_def)
  from g have "getChannelId (Inl (JsError ''offline''))
         (JStr ''https://www.youtube.com/channel/UCBJycsmduvYEL83R_U4JriQ?si=abc'')
       = ([], Returned (JStr ''UCBJycsmduvYEL83R_U4JriQ''))"
    unfolding x by (simp add: startsWith_def Let_def)
  with a b show ?thesis by blast
qed

text \<open>
  C8 as stated fails: the component \<open>UCshort\<close> has 7 characters, not 24, and is
  returned as the channel id with no upstream call.
\<close>

theorem getChannelId_channel_url_counterexample:
  "getChannelId (Inl (JsError ''offline'')) (JStr ''https://www.youtube.com/channel/UCshort'')
     = ([], Returned (JStr ''UCshort''))
   \<and> length ''UCshort'' \<noteq> 24"
  by (simp add: getChannelId_def startsWith_def splitStr_def part_def liftE_def ret_def)

section \<open>Lemmas on objects and the merge\<close>

lemma setProp_keys:
  "map fst (setProp k v kvs) = (if k \<in> set (map fst kvs) then map fst kvs else map fst kvs @ [k])"
  by (induction kvs) (fastforce simp: image_iff)+

lemma setProp_distinct: "distinct (map fst kvs) \<Longrightarrow> distinct (map fst (setProp k v kvs))"
proof (induction kvs)
  case Nil
  then show ?case by simp
next
  case (Cons p kvs)
  then show ?case
    by (auto simp: setProp_keys)
qed

lemma map_of_rev_distinct: "distinct (map fst kvs) \<Longrightarrow> map_of (rev kvs) = map_of kvs"
proof (induction kvs)
  case Nil
  then show ?case by simp
next
  case (Cons p kvs)
  obtain k v where p: "p = (k, v)" by (cases p)
  from Cons.prems have "map_of kvs k = None"
    by (simp add: p map_of_eq_None_iff)
  with Cons show ?case
    by (auto simp: p fun_eq_iff map_add_def split: option.splits)
qed

lemma setProp_map_of: "map_of (setProp k v kvs) = (map_of kvs)(k \<mapsto> v)"
  by (induction kvs) auto

lemma spread_fold:
  "distinct (map fst base) \<Longrightarrow>
   distinct (map fst (foldl (\<lambda>acc (k, w). setProp k w acc) base props))
   \<and> map_of (foldl (\<lambda>acc (k, w). setProp k w acc) base props) = map_of base ++ map_of (rev props)"
proof (induction props arbitrary: base)
  case Nil
  then show ?case by simp
next
  case (Cons p props)
  obtain k w where p: "p = (k, w)" by (cases p)
  have d: "distinct (map fst (setProp k w base))"
    using Cons.prems by (rule setProp_distinct)
  from Cons.IH [OF d] show ?case
    by (auto simp: p setProp_map_of map_add_def fun_eq_iff split: option.splits)
qed

lemma spreadInto_distinct:
  "distinct (map fst base) \<Longrightarrow> distinct (map fst (spreadInto base v))"
  by (simp add: spreadInto_def spread_fold)

lemma spreadInto_map_of:
  "distinct (map fst base) \<Longrightarrow>
   map_of (spreadInto base v) = map_of base ++ map_of (rev (ownProps v))"
  by (simp add: spreadInto_def spread_fold)

lemma getProp_distinct:
  "distinct (map fst kvs) \<Longrightarrow>
   getProp (JObj kvs) k = Inr (case map_of kvs k of Some v \<Rightarrow> v | None \<Rightarrow> JUndefined)"
  by (simp add: map_of_rev_distinct)

lemma getProp_merged:
  "getProp (merged ds video) k =
     Inr (case (map_of (rev (ownProps video))
                ++ map_of (rev (ownProps (case find (matches video) ds of None \<Rightarrow> JUndefined | Some d \<Rightarrow> d)))) k of
            Some x \<Rightarrow> x | None \<Rightarrow> JUndefined)"
proof -
  have d0: "distinct (map fst (spreadInto [] video))"
    by (rule spreadInto_distinct) simp
  have d1: "distinct (map fst (spreadInto (spreadInto [] video) x))" for x
    using d0 by (rule spreadInto_distinct)
  show ?thesis
    unfolding merged_def getProp.simps
    by (simp add: map_of_rev_distinct [OF d1] spreadInto_map_of [OF d0] spreadInto_map_of [of "[]"])
qed

lemma bindE_Inr: "bindE m f = Inr y \<longleftrightarrow> (\<exists>x. m = Inr x \<and> f x = Inr y)"
  by (cases m) auto

lemma mapE_Inr_map:
  "mapE f xs = Inr ys \<Longrightarrow> (\<And>x y. x \<in> set xs \<Longrightarrow> f x = Inr y \<Longrightarrow> y = g x) \<Longrightarrow> ys = map g xs"
proof (induction xs arbitrary: ys)
  case Nil
  then show ?case by simp
next
  case (Cons a xs)
  from Cons.prems(1) obtain y ys' where y: "f a = Inr y" and ys': "mapE f xs = Inr ys'"
    and ys: "ys = y # ys'"
    by (auto simp: bindE_Inr)
  have "ys' = map g xs"
    using ys' Cons.prems(2) by (intro Cons.IH) auto
  moreover have "y = g a" using y Cons.prems(2) by simp
  ultimately show ?case using ys by simp
qed

lemma videoDetail_Inr:
  "videoDetail x = Inr d \<Longrightarrow> \<exists>kvs. d = JObj kvs \<and> map fst kvs = detailKeys"
  by (auto simp: videoDetail_def bindE_Inr detailKeys_def)

lemma detail_has_id:
  assumes "mapE videoDetail its = Inr ds" and "d \<in> set ds"
  shows "\<exists>kvs. d = JObj kvs \<and> map fst kvs = detailKeys"
proof -
  have "\<forall>d\<in>set ds. \<exists>kvs. d = JObj kvs \<and> map fst kvs = detailKeys"
    using assms(1)
  proof (induction its arbitrary: ds)
    case Nil
    then show ?case by simp
  next
    case (Cons a its)
    then show ?case
      by (auto simp: bindE_Inr dest: videoDetail_Inr)
  qed
  with assms(2) show ?thesis by blast
qed

lemma findE_Inr:
  "findE p ds = Inr r \<Longrightarrow> (\<And>d b. p d = Inr b \<Longrightarrow> b = q d) \<Longrightarrow>
   r = (case find q ds of None \<Rightarrow> JUndefined | Some d \<Rightarrow> d)"
proof (induction ds)
  case Nil
  then show ?case by simp
next
  case (Cons a ds)
  from Cons.prems(1) obtain b where b: "p a = Inr b"
    and r: "(if b then Inr a else findE p ds) = Inr r"
    by (auto simp: bindE_Inr)
  have qa: "b = q a" using b Cons.prems(2) by simp
  show ?case
  proof (cases b)
    case True
    with r qa show ?thesis by simp
  next
    case False
    with r have "findE p ds = Inr r" by simp
    then have "r = (case find q ds of None \<Rightarrow> JUndefined | Some d \<Rightarrow> d)"
      using Cons.prems(2) by (rule Cons.IH)
    with False qa show ?thesis by simp
  qed
qed

lemma findE_total:
  "\<forall>d\<in>set ds. p d = Inr (q d) \<Longrightarrow>
   findE p ds = Inr (case find q ds of None \<Rightarrow> JUndefined | Some d \<Rightarrow> d)"
  by (induction ds) auto

lemma mergeVideo_Inr: "mergeVideo ds video = Inr y \<Longrightarrow> y = merged ds video"
proof -
  assume a: "mergeVideo ds video = Inr y"
  then obtain details where f: "findE (\<lambda>detail.
              bindE (getProp detail ''id'') (\<lambda>did.
              bindE (getPath video [''id'', ''videoId'']) (\<lambda>vid.
              Inr (strictEq did vid)))) ds = Inr details"
    and y: "y = JObj (spreadInto (spreadInto [] video) details)"
    by (auto simp: mergeVideo_def bindE_Inr)
  have "details = (case find (matches video) ds of None \<Rightarrow> JUndefined | Some d \<Rightarrow> d)"
    using f
  proof (rule findE_Inr)
    fix d b
    assume "bindE (getProp d ''id'') (\<lambda>did.
              bindE (getPath video [''id'', ''videoId'']) (\<lambda>vid. Inr (strictEq did vid))) = Inr b"
    then show "b = matches video d"
      unfolding matches_def by (auto simp: bindE_Inr simp del: getPath.simps)
  qed
  with y show ?thesis by (simp add: merged_def)
qed

lemma mergeVideo_total:
  assumes "\<forall>d\<in>set ds. \<exists>x. getProp d ''id'' = Inr x"
    and "getPath video [''id'', ''videoId''] = Inr vid"
  shows "mergeVideo ds video = Inr (merged ds video)"
proof -
  have "findE (\<lambda>detail.
              bindE (getProp detail ''id'') (\<lambda>did.
              bindE (getPath video [''id'', ''videoId'']) (\<lambda>vid.
              Inr (strictEq did vid)))) ds
        = Inr (case find (matches video) ds of None \<Rightarrow> JUndefined | Some d \<Rightarrow> d)"
  proof (rule findE_total, rule ballI)
    fix d assume "d \<in> set ds"
    with assms(1) obtain x where "getProp d ''id'' = Inr x" by blast
    with assms(2) show "bindE (getProp d ''id'') (\<lambda>did.
              bindE (getPath video [''id'', ''videoId'']) (\<lambda>vid. Inr (strictEq did vid)))
            = Inr (matches video d)"
      unfolding matches_def by (simp del: getPath.simps)
  qed
  then show ?thesis by (simp add: mergeVideo_def merged_def)
qed

lemma videoIdsOf_ok:
  "videoIdsOf vs = Inr ids \<Longrightarrow> v \<in> set vs \<Longrightarrow> \<exists>vid. getPath v [''id'', ''videoId''] = Inr vid"
  unfolding videoIdsOf_def bindE_Inr
  using mapE_ok [of "\<lambda>video. getPath video [''id'', ''videoId'']" vs _ v] by blast

lemma page_merge:
  assumes "videoIdsOf vs = Inr ids" and "mapE videoDetail its = Inr ds"
  shows "mapE (mergeVideo ds) vs = Inr (map (merged ds) vs)"
proof (rule mapE_map, rule ballI)
  fix v assume "v \<in> set vs"
  with assms(1) obtain vid where vid: "getPath v [''id'', ''videoId''] = Inr vid"
    using videoIdsOf_ok by blast
  have "\<forall>d\<in>set ds. \<exists>x. getProp d ''id'' = Inr x"
  proof
    fix d assume "d \<in> set ds"
    then obtain kvs where "d = JObj kvs"
      using detail_has_id [OF assms(2)] by blast
    then show "\<exists>x. getProp d ''id'' = Inr x" by simp
  qed
  then show "mergeVideo ds v = Inr (merged ds v)"
    using vid by (rule mergeVideo_total)
qed

lemma getVideoDetails_Returned:
  "getVideoDetails dr ids = (t, Returned ds) \<longleftrightarrow>
     t = [ApiCall (VideosList ids)]
     \<and> (\<exists>dd its. dr = Inr dd \<and> data_items dd = Some its \<and> mapE videoDetail its = Inr ds)"
  by (cases dr)
     (auto simp: getVideoDetails_def await_def raise_def liftE_def
           split: option.splits sum.splits)

lemma detailsOf_eq:
  "dr = Inr dd \<Longrightarrow> data_items dd = Some its \<Longrightarrow> mapE videoDetail its = Inr ds \<Longrightarrow> detailsOf dr = ds"
  by (simp add: detailsOf_def)

section \<open>Lemmas on the fetch loops\<close>

declare getAllLoop.simps(2) [simp del]

declare streamLoop.simps(2) [simp del]

lemma searchCalls_Nil [simp]: "searchCalls [] = 0"
  by (simp add: searchCalls_def)

lemma fst_andThen:
  "fst (andThen m f) = fst m @ (case snd m of Returned x \<Rightarrow> fst (f x) | _ \<Rightarrow> [])"
proof (cases m)
  case (Pair t r)
  then show ?thesis by (cases r) (auto split: prod.splits)
qed

lemma snd_andThen:
  "snd (andThen m f) = (case snd m of Returned x \<Rightarrow> snd (f x) | Threw e \<Rightarrow> Threw e | Pending \<Rightarrow> Pending)"
proof (cases m)
  case (Pair t r)
  then show ?thesis by (cases r) (auto split: prod.splits)
qed

lemma searchCalls_append [simp]: "searchCalls (a @ b) = searchCalls a + searchCalls b"
  by (simp add: searchCalls_def)

lemma delivered_append [simp]: "delivered (a @ b) = delivered a @ delivered b"
  by (induction a rule: delivered.induct) auto

lemma pageVideos_trace:
  "fst (pageVideos opts dr d) = [] \<or> (\<exists>ids. fst (pageVideos opts dr d) = [ApiCall (VideosList ids)])"
  by (auto simp: pageVideos_def fst_andThen ret_def liftE_def getVideoDetails_def await_def raise_def
      split: option.splits list.splits sum.splits outcome.splits)

lemma pageVideos_searchCalls [simp]: "searchCalls (fst (pageVideos opts dr d)) = 0"
  using pageVideos_trace [of opts dr d] by (auto simp: searchCalls_def)

lemma pageVideos_delivered [simp]: "delivered (fst (pageVideos opts dr d)) = []"
  using pageVideos_trace [of opts dr d] by auto

lemma liftE_Returned: "liftE m = (t, Returned x) \<longleftrightarrow> t = [] \<and> m = Inr x"
  by (cases m) (auto simp: liftE_def)

lemma pageVideos_Returned:
  assumes "pageVideos opts dr d = (t, Returned vs)"
  shows "vs = pageOutput opts (Inr d, dr)"
proof (cases "data_items d")
  case None
  with assms show ?thesis by (simp add: pageVideos_def ret_def pageOutput_def itemsOf_def)
next
  case (Some its)
  show ?thesis
  proof (cases its)
    case Nil
    with Some assms show ?thesis by (simp add: pageVideos_def ret_def pageOutput_def itemsOf_def)
  next
    case (Cons v vs')
    show ?thesis
    proof (cases "includeDetails opts")
      case False
      with Some Cons assms show ?thesis
        by (auto simp: pageVideos_def ret_def pageOutput_def itemsOf_def)
    next
      case True
      with Some Cons assms obtain ids t1 ds where
        g: "getVideoDetails dr ids = (t1, Returned ds)"
        and m: "mapE (mergeVideo ds) (v # vs') = Inr vs"
        by (auto simp: pageVideos_def andThen_Returned liftE_Returned simp del: mapE.simps)
      from g have ds: "detailsOf dr = ds"
        by (auto simp: getVideoDetails_Returned detailsOf_def)
      from m have "vs = map (merged ds) (v # vs')"
        by (rule mapE_Inr_map) (rule mergeVideo_Inr)
      with Some Cons True ds show ?thesis
        by (simp add: pageOutput_def itemsOf_def)
    qed
  qed
qed

lemma not_isl_Inr: "\<not> isl x \<longleftrightarrow> (\<exists>y. x = Inr y)"
  by (cases x) auto

lemma pageSucceeds_Returned:
  assumes "pageSucceeds opts (Inr d, dr)"
  shows "\<exists>t. pageVideos opts dr d = (t, Returned (pageOutput opts (Inr d, dr)))"
proof -
  have "\<exists>t vs. pageVideos opts dr d = (t, Returned vs)"
  proof (cases "data_items d")
    case None
    then show ?thesis by (simp add: pageVideos_def ret_def)
  next
    case (Some its)
    show ?thesis
    proof (cases its)
      case Nil
      with Some show ?thesis by (simp add: pageVideos_def ret_def)
    next
      case (Cons v vs')
      show ?thesis
      proof (cases "includeDetails opts")
        case False
        with Some Cons show ?thesis by (simp add: pageVideos_def ret_def)
      next
        case True
        with Some Cons assms obtain ids dd dits ds where
          ids: "videoIdsOf (v # vs') = Inr ids" and dr: "dr = Inr dd"
          and dits: "data_items dd = Some dits" and ds: "mapE videoDetail dits = Inr ds"
          by (auto simp: pageSucceeds_def not_isl_Inr simp del: mapE.simps
                   split: sum.splits option.splits)
        have "mapE (mergeVideo ds) (v # vs') = Inr (map (merged ds) (v # vs'))"
          using ids ds by (rule page_merge)
        moreover have "getVideoDetails dr ids = ([ApiCall (VideosList ids)], Returned ds)"
          using dr dits ds by (simp add: getVideoDetails_Returned)
        ultimately show ?thesis
          using Some Cons True ids
          by (simp add: pageVideos_def liftE_def del: mapE.simps)
      qed
    qed
  qed
  then obtain t vs where p: "pageVideos opts dr d = (t, Returned vs)" by blast
  then have "vs = pageOutput opts (Inr d, dr)" by (rule pageVideos_Returned)
  with p show ?thesis by blast
qed

lemma await_Returned: "await req r = (t, Returned d) \<longleftrightarrow> t = [ApiCall req] \<and> r = Inr d"
  by (cases r) (auto simp: await_def)

lemma emit_andThen_Returned:
  "andThen (emit ev) f = (t, Returned y) \<longleftrightarrow> (\<exists>t'. f () = (t', Returned y) \<and> t = ev # t')"
  by (cases "f ()") (auto simp: emit_def)

lemma searchCalls_Cons:
  "searchCalls (e # t) = (if isSearchVideos e then 1 else 0) + searchCalls t"
  by (simp add: searchCalls_def)

lemma getAllLoop_Returned:
  "getAllLoop opts cid pages acc tok n = (t, Returned out) \<Longrightarrow>
   searchCalls t \<le> length pages
   \<and> out = acc @ concat (map (pageOutput opts) (take (searchCalls t) pages))"
proof (induction pages arbitrary: acc tok n t out)
  case Nil
  then show ?case by simp
next
  case (Cons pg pages)
  obtain sr dr where pg: "pg = (sr, dr)" by (cases pg)
  from Cons.prems obtain d t1 vs t2 where
    sr: "sr = Inr d"
    and pv: "pageVideos opts dr d = (t1, Returned vs)"
    and rest: "(if truthy (tokenOf d) then
                  andThen (emit (Sleep 100)) (\<lambda>_.
                  getAllLoop opts cid pages (acc @ vs) (tokenOf d) (Suc n))
                else ret (acc @ vs)) = (t2, Returned out)"
    and t: "t = ApiCall (SearchVideos (searchParamsOf opts cid tok)) # t1 @ t2"
    unfolding pg getAllLoop_Cons andThen_Returned await_Returned by auto
  have vs: "vs = pageOutput opts pg"
    using pv sr pg pageVideos_Returned by blast
  have c1: "searchCalls t1 = 0"
    using pageVideos_searchCalls [of opts dr d] pv by simp
  show ?case
  proof (cases "truthy (tokenOf d)")
    case True
    with rest obtain t3 where
      l: "getAllLoop opts cid pages (acc @ vs) (tokenOf d) (Suc n) = (t3, Returned out)"
      and t2: "t2 = Sleep 100 # t3"
      by (auto simp: emit_andThen_Returned)
    from Cons.IH [OF l] have
      "searchCalls t3 \<le> length pages"
      "out = (acc @ vs) @ concat (map (pageOutput opts) (take (searchCalls t3) pages))"
      by auto
    moreover have "searchCalls t = Suc (searchCalls t3)"
      by (simp add: t t2 c1 searchCalls_Cons)
    ultimately show ?thesis by (simp add: vs)
  next
    case False
    with rest have "t2 = []" "out = acc @ vs" by (auto simp: ret_def)
    moreover then have "searchCalls t = 1"
      by (simp add: t c1 searchCalls_Cons)
    ultimately show ?thesis by (simp add: vs)
  qed
qed

lemma getAllLoop_pages:
  assumes "Suc m \<le> length pages"
    and "\<forall>i<Suc m. pageSucceeds opts (pages ! i)"
    and "\<forall>i<m. hasCursor (pages ! i)"
    and "\<not> hasCursor (pages ! m)"
  shows "\<exists>t. getAllLoop opts cid pages acc tok n
              = (t, Returned (acc @ concat (map (pageOutput opts) (take (Suc m) pages))))
           \<and> searchCalls t = Suc m"
  using assms
proof (induction m arbitrary: pages acc tok n)
  case 0
  then obtain pg rest where pages: "pages = pg # rest" by (cases pages) auto
  obtain sr dr where pg: "pg = (sr, dr)" by (cases pg)
  from 0(2) have "pageSucceeds opts (sr, dr)" by (simp add: pages pg)
  then obtain d where sr: "sr = Inr d" and ps: "pageSucceeds opts (Inr d, dr)"
    by (cases sr) (auto simp: pageSucceeds_def)
  from ps obtain t1 where pv: "pageVideos opts dr d = (t1, Returned (pageOutput opts (Inr d, dr)))"
    using pageSucceeds_Returned by blast
  from 0(4) have nt: "\<not> truthy (tokenOf d)" by (simp add: pages pg sr hasCursor_def)
  have c1: "searchCalls t1 = 0"
    using pageVideos_searchCalls [of opts dr d] pv by simp
  show ?case
    using pv nt c1
    by (simp add: pages pg sr getAllLoop_Cons await_def ret_def searchCalls_Cons)
next
  case (Suc m)
  then obtain pg rest where pages: "pages = pg # rest" by (cases pages) auto
  obtain sr dr where pg: "pg = (sr, dr)" by (cases pg)
  from Suc.prems(2) have "pageSucceeds opts (pages ! 0)" by blast
  then have "pageSucceeds opts (sr, dr)" by (simp add: pages pg)
  then obtain d where sr: "sr = Inr d" and ps: "pageSucceeds opts (Inr d, dr)"
    by (cases sr) (auto simp: pageSucceeds_def)
  from ps obtain t1 where pv: "pageVideos opts dr d = (t1, Returned (pageOutput opts (Inr d, dr)))"
    using pageSucceeds_Returned by blast
  from Suc.prems(3) have "hasCursor (pages ! 0)" by blast
  then have tr: "truthy (tokenOf d)" by (simp add: pages pg sr hasCursor_def)
  have c1: "searchCalls t1 = 0"
    using pageVideos_searchCalls [of opts dr d] pv by simp
  have a1: "Suc m \<le> length rest" using Suc.prems(1) by (simp add: pages)
  have a2: "\<forall>i<Suc m. pageSucceeds opts (rest ! i)"
    using Suc.prems(2) by (auto simp: pages)
  have a3: "\<forall>i<m. hasCursor (rest ! i)"
    using Suc.prems(3) by (auto simp: pages)
  have a4: "\<not> hasCursor (rest ! m)"
    using Suc.prems(4) by (simp add: pages)
  from Suc.IH [OF a1 a2 a3 a4, of "acc @ pageOutput opts (Inr d, dr)" "tokenOf d" "Suc n"]
  obtain t3 where
    l: "getAllLoop opts cid rest (acc @ pageOutput opts (Inr d, dr)) (tokenOf d) (Suc n)
        = (t3, Returned ((acc @ pageOutput opts (Inr d, dr))
                          @ concat (map (pageOutput opts) (take (Suc m) rest))))"
    and c3: "searchCalls t3 = Suc m"
    by blast
  show ?case
    using pv tr c1 l c3
    by (simp add: pages pg sr getAllLoop_Cons await_def emit_def searchCalls_Cons)
qed

lemma filter_pageVideos [simp]:
  "filter (\<lambda>e. \<not> isCallback e) (fst (pageVideos opts dr d)) = fst (pageVideos opts dr d)"
  using pageVideos_trace [of opts dr d] by auto

lemma stream_getAll:
  "snd (streamLoop opts cid pages acc tok n) = snd (getAllLoop opts cid pages acc tok n)
   \<and> filter (\<lambda>e. \<not> isCallback e) (fst (streamLoop opts cid pages acc tok n))
       = fst (getAllLoop opts cid pages acc tok n)
   \<and> (\<forall>out. snd (streamLoop opts cid pages acc tok n) = Returned out
        \<longrightarrow> out = acc @ delivered (fst (streamLoop opts cid pages acc tok n)))"
proof (induction pages arbitrary: acc tok n)
  case Nil
  then show ?case by simp
next
  case (Cons pg pages)
  obtain sr dr where pg: "pg = (sr, dr)" by (cases pg)
  show ?case
  proof (cases sr)
    case (Inl e)
    then show ?thesis
      by (simp add: pg getAllLoop_Cons streamLoop_Cons await_def emit_def)
  next
    case (Inr d)
    obtain t1 r1 where pv: "pageVideos opts dr d = (t1, r1)" by (cases "pageVideos opts dr d")
    have f1: "filter (\<lambda>e. \<not> isCallback e) t1 = t1"
      using filter_pageVideos [of opts dr d] pv by simp
    have d1: "delivered t1 = []"
      using pageVideos_delivered [of opts dr d] pv by simp
    show ?thesis
    proof (cases r1)
      case (Returned vs)
      note IH = Cons.IH [of "acc @ vs" "tokenOf d" "Suc n"]
      obtain ts rs where s: "streamLoop opts cid pages (acc @ vs) (tokenOf d) (Suc n) = (ts, rs)"
        by (cases "streamLoop opts cid pages (acc @ vs) (tokenOf d) (Suc n)")
      obtain tg rg where g: "getAllLoop opts cid pages (acc @ vs) (tokenOf d) (Suc n) = (tg, rg)"
        by (cases "getAllLoop opts cid pages (acc @ vs) (tokenOf d) (Suc n)")
      from IH s g have r: "rs = rg" and f: "filter (\<lambda>e. \<not> isCallback e) ts = tg"
        and o: "\<forall>out. rs = Returned out \<longrightarrow> out = acc @ vs @ delivered ts"
        by auto
      show ?thesis
        using pv Returned f1 d1 s g r f o
        by (cases rg)
           (auto simp: pg Inr getAllLoop_Cons streamLoop_Cons await_def emit_def notify_def ret_def)
    next
      case (Threw e)
      with pv f1 show ?thesis
        by (simp add: pg Inr getAllLoop_Cons streamLoop_Cons await_def emit_def)
    next
      case Pending
      with pv f1 show ?thesis
        by (simp add: pg Inr getAllLoop_Cons streamLoop_Cons await_def emit_def)
    qed
  qed
qed

section \<open>Merge completeness and the shape of the id field\<close>

lemma strictEq_JStr: "strictEq x (JStr s) \<longleftrightarrow> x = JStr s"
  by (cases x) auto

lemma getPath_videoId_obj:
  assumes "getPath video [''id'', ''videoId''] = Inr vid"
  shows "\<exists>kvs. video = JObj kvs"
  using assms by (cases video) (auto simp: cannotRead_def)

lemma merged_unmatched:
  assumes "find (matches video) ds = None" and "video = JObj kvs"
  shows "getProp (merged ds video) k = getProp video k"
  using assms by (simp add: getProp_merged)

lemma merged_matched:
  assumes "find (matches video) ds = Some (JObj dkvs)" and "k \<in> set (map fst dkvs)"
  shows "getProp (merged ds video) k = getProp (JObj dkvs) k"
proof -
  from assms(2) have "k \<in> fst ` set (rev dkvs)" by simp
  then obtain x where "map_of (rev dkvs) k = Some x"
    by (metis domD dom_map_of_conv_image_fst)
  with assms(1) show ?thesis by (simp add: getProp_merged)
qed

text \<open>
  C3 (merge completeness). Take a page whose video ids can be read (\<open>videoIdsOf\<close>
  returns) and a detail batch \<open>ds\<close> that \<open>getVideoDetails\<close> builds. The merge
  callback throws on no video, and the page maps to exactly one merged record per video,
  in the page's order. A video with no matching record in the batch is delivered as
  \<open>{ ...video }\<close>: every property reads as in the search item, no detail field is added.
  A video with a matching record has every detail field of that record. When
  \<open>getAllChannelVideos\<close> returns with \<open>includeDetails\<close> set, its result is the
  concatenation of these merged pages over the pages it fetched.
\<close>

theorem merge_completeness:
  assumes "videoIdsOf videos = Inr ids" and "mapE videoDetail its = Inr ds"
  shows "mapE (mergeVideo ds) videos = Inr (map (merged ds) videos)
       \<and> length (map (merged ds) videos) = length videos
       \<and> (\<forall>video\<in>set videos.
            case find (matches video) ds of
              None \<Rightarrow> merged ds video = JObj (spreadInto [] video)
                       \<and> (\<forall>k. getProp (merged ds video) k = getProp video k)
            | Some d \<Rightarrow> \<forall>k\<in>set detailKeys. getProp (merged ds video) k = getProp d k)
       \<and> (includeDetails opts \<and> getAllChannelVideos opts cid pages = (t, Returned out)
            \<longrightarrow> out = concat (map (\<lambda>pg. map (merged (detailsOf (snd pg))) (itemsOf (fst pg)))
                                  (take (searchCalls t) pages)))"
proof -
  have a: "mapE (mergeVideo ds) videos = Inr (map (merged ds) videos)"
    using assms by (rule page_merge)
  have b: "case find (matches video) ds of
              None \<Rightarrow> merged ds video = JObj (spreadInto [] video)
                       \<and> (\<forall>k. getProp (merged ds video) k = getProp video k)
            | Some d \<Rightarrow> \<forall>k\<in>set detailKeys. getProp (merged ds video) k = getProp d k"
    if v: "video \<in> set videos" for video
  proof (cases "find (matches video) ds")
    case None
    from v assms(1) obtain vid where "getPath video [''id'', ''videoId''] = Inr vid"
      using videoIdsOf_ok by blast
    then obtain kvs where "video = JObj kvs"
      using getPath_videoId_obj by blast
    with None show ?thesis
      by (simp add: merged_unmatched) (simp add: merged_def spreadInto_def)
  next
    case (Some d)
    then have "d \<in> set ds" by (auto simp: find_Some_iff)
    then obtain dkvs where d: "d = JObj dkvs" and k: "map fst dkvs = detailKeys"
      using detail_has_id [OF assms(2)] by blast
    show ?thesis
      using Some merged_matched [of video ds dkvs] by (simp add: d k)
  qed
  have c: "out = concat (map (\<lambda>pg. map (merged (detailsOf (snd pg))) (itemsOf (fst pg)))
                                  (take (searchCalls t) pages))"
    if "includeDetails opts" and "getAllChannelVideos opts cid pages = (t, Returned out)"
  proof -
    have "pageOutput opts = (\<lambda>pg. map (merged (detailsOf (snd pg))) (itemsOf (fst pg)))"
      using that(1) by (simp add: pageOutput_def fun_eq_iff)
    then show ?thesis
      using getAllLoop_Returned [of opts cid pages "[]" JNull 0 t out] that(2)
      by (simp add: getAllChannelVideos_def)
  qed
  from a b c show ?thesis by simp
qed

theorem merge_completeness_witness:
  "videoIdsOf [sampleItem ''a'', sampleItem ''b''] = Inr ''a,b''
   \<and> mapE videoDetail [sampleDetailItem ''b''] = Inr [sampleDetail ''b'']
   \<and> mapE (mergeVideo [sampleDetail ''b'']) [sampleItem ''a'', sampleItem ''b'']
       = Inr [sampleItem ''a'',
              JObj [(''kind'', JStr ''youtube#searchResult''), (''id'', JStr ''b''),
                    (''snippet'', JObj [(''title'', JStr ''b'')]),
                    (''title'', JStr ''b''), (''description'', JUndefined),
                    (''publishedAt'', JUndefined), (''thumbnail'', JStr ''u''),
                    (''duration'', JStr ''PT1M''), (''viewCount'', JStr ''5''),
                    (''likeCount'', JUndefined), (''commentCount'', JUndefined),
                    (''tags'', JArr [])]]"
proof -
  have h1: "videoIdsOf [sampleItem ''a'', sampleItem ''b''] = Inr ''a,b''"
    by code_simp
  have h2: "mapE videoDetail [sampleDetailItem ''b''] = Inr [sampleDetail ''b'']"
    by code_simp
  have e: "map (merged [sampleDetail ''b'']) [sampleItem ''a'', sampleItem ''b'']
       = [sampleItem ''a'',
              JObj [(''kind'', JStr ''youtube#searchResult''), (''id'', JStr ''b''),
                    (''snippet'', JObj [(''title'', JStr ''b'')]),
                    (''title'', JStr ''b''), (''description'', JUndefined),
                    (''publishedAt'', JUndefined), (''thumbnail'', JStr ''u''),
                    (''duration'', JStr ''PT1M''), (''viewCount'', JStr ''5''),
                    (''likeCount'', JUndefined), (''commentCount'', JUndefined),
                    (''tags'', JArr [])]]"
    by code_simp
  from merge_completeness [OF h1 h2] h1 h2 e show ?thesis by simp
qed

text \<open>
  C9. For a detail batch that \<open>getVideoDetails\<close> builds and a search item whose
  \<open>id.videoId\<close> is a string, the merge returns; when a record of the batch matches, the
  merged record's \<open>id\<close> is that plain string (the detail record's \<open>id\<close> overwrote the
  search item's); when no record of the batch has this id, the merged record's \<open>id\<close> is
  still the search item's composite object.
\<close>

theorem merged_id_shape:
  assumes "mapE videoDetail its = Inr ds"
    and "getPath video [''id'', ''videoId''] = Inr (JStr vid)"
  shows "mergeVideo ds video = Inr (merged ds video)
       \<and> (case find (matches video) ds of
            Some d \<Rightarrow> getProp d ''id'' = Inr (JStr vid)
                      \<and> getProp (merged ds video) ''id'' = Inr (JStr vid)
          | None \<Rightarrow> (\<forall>d\<in>set ds. getProp d ''id'' \<noteq> Inr (JStr vid))
                    \<and> getProp (merged ds video) ''id'' = getProp video ''id''
                    \<and> (\<exists>composite. getProp video ''id'' = Inr (JObj composite)))"
proof -
  have ids: "\<forall>d\<in>set ds. \<exists>x. getProp d ''id'' = Inr x"
  proof
    fix d assume "d \<in> set ds"
    then obtain kvs where "d = JObj kvs"
      using detail_has_id [OF assms(1)] by blast
    then show "\<exists>x. getProp d ''id'' = Inr x" by simp
  qed
  then have m: "mergeVideo ds video = Inr (merged ds video)"
    using assms(2) by (rule mergeVideo_total)
  have mt: "matches video d \<longleftrightarrow> getProp d ''id'' = Inr (JStr vid)" if "d \<in> set ds" for d
  proof -
    from that ids obtain x where "getProp d ''id'' = Inr x" by blast
    then show ?thesis
      using assms(2) by (simp add: matches_def strictEq_JStr del: getPath.simps)
  qed
  have s: "case find (matches video) ds of
            Some d \<Rightarrow> getProp d ''id'' = Inr (JStr vid)
                      \<and> getProp (merged ds video) ''id'' = Inr (JStr vid)
          | None \<Rightarrow> (\<forall>d\<in>set ds. getProp d ''id'' \<noteq> Inr (JStr vid))
                    \<and> getProp (merged ds video) ''id'' = getProp video ''id''
                    \<and> (\<exists>composite. getProp video ''id'' = Inr (JObj composite))"
  proof (cases "find (matches video) ds")
    case None
    then have n: "\<forall>d\<in>set ds. getProp d ''id'' \<noteq> Inr (JStr vid)"
      using mt by (auto simp: find_None_iff)
    obtain kvs where v: "video = JObj kvs"
      using assms(2) getPath_videoId_obj by blast
    have "\<exists>composite. getProp video ''id'' = Inr (JObj composite)"
    proof -
      from assms(2) obtain x where x: "getProp video ''id'' = Inr x"
        and y: "getProp x ''videoId'' = Inr (JStr vid)"
        by (auto simp: bindE_Inr)
      from y have "\<exists>composite. x = JObj composite" by (cases x) auto
      with x show ?thesis by blast
    qed
    with None n v show ?thesis by (simp add: merged_unmatched)
  next
    case (Some d)
    then have dm: "d \<in> set ds" "matches video d" by (auto simp: find_Some_iff)
    then have di: "getProp d ''id'' = Inr (JStr vid)" using mt by blast
    from dm(1) obtain dkvs where d: "d = JObj dkvs" and k: "map fst dkvs = detailKeys"
      using detail_has_id [OF assms(1)] by blast
    have "getProp (merged ds video) ''id'' = getProp (JObj dkvs) ''id''"
      using Some by (intro merged_matched) (simp_all add: d k detailKeys_def)
    with Some di d show ?thesis by simp
  qed
  from m s show ?thesis by simp
qed

theorem merged_id_shape_witness:
  "mapE videoDetail [sampleDetailItem ''b''] = Inr [sampleDetail ''b'']
   \<and> getPath (sampleItem ''a'') [''id'', ''videoId''] = Inr (JStr ''a'')
   \<and> getPath (sampleItem ''b'') [''id'', ''videoId''] = Inr (JStr ''b'')
   \<and> getProp (merged [sampleDetail ''b''] (sampleItem ''a'')) ''id''
       = Inr (JObj [(''kind'', JStr ''youtube#video''), (''videoId'', JStr ''a'')])
   \<and> getProp (merged [sampleDetail ''b''] (sampleItem ''b'')) ''id'' = Inr (JStr ''b'')"
proof -
  have h1: "mapE videoDetail [sampleDetailItem ''b''] = Inr [sampleDetail ''b'']"
    by code_simp
  have ha: "getPath (sampleItem ''a'') [''id'', ''videoId''] = Inr (JStr ''a'')"
    by code_simp
  have hb: "getPath (sampleItem ''b'') [''id'', ''videoId''] = Inr (JStr ''b'')"
    by code_simp
  have fa: "find (matches (sampleItem ''a'')) [sampleDetail ''b''] = None"
    by code_simp
  have fb: "find (matches (sampleItem ''b'')) [sampleDetail ''b''] = Some (sampleDetail ''b'')"
    by code_simp
  have ia: "getProp (sampleItem ''a'') ''id''
       = Inr (JObj [(''kind'', JStr ''youtube#video''), (''videoId'', JStr ''a'')])"
    by code_simp
  from merged_id_shape [OF h1 ha] merged_id_shape [OF h1 hb] h1 ha hb fa fb ia
  show ?thesis by simp
qed

section \<open>Pagination and the two delivery modes\<close>

lemma pageOutput_length: "length (pageOutput opts pg) = length (itemsOf (fst pg))"
  by (simp add: pageOutput_def)

text \<open>
  C4 (pagination). Let the first \<open>N \<ge> 1\<close> scripted pages let their iteration through,
  let pages 1 to \<open>N - 1\<close> carry a continuation cursor and page \<open>N\<close> none. Then
  \<open>getAllChannelVideos\<close> returns normally, with exactly \<open>N\<close> paginated search calls
  in its trace, and returns the accumulated videos of these \<open>N\<close> pages, as many as the
  pages have items. The witness is a channel of 73 videos served in pages of 50: two
  search calls, 73 videos.
\<close>

theorem getAllChannelVideos_pagination:
  assumes "1 \<le> N" and "N \<le> length pages"
    and "\<forall>i<N. pageSucceeds opts (pages ! i)"
    and "\<forall>i<N - 1. hasCursor (pages ! i)"
    and "\<not> hasCursor (pages ! (N - 1))"
  shows "\<exists>t. getAllChannelVideos opts cid pages
              = (t, Returned (concat (map (pageOutput opts) (take N pages))))
           \<and> searchCalls t = N
           \<and> length (concat (map (pageOutput opts) (take N pages)))
               = sum_list (map (\<lambda>pg. length (itemsOf (fst pg))) (take N pages))"
proof -
  from assms(1) obtain m where N: "N = Suc m" by (cases N) auto
  have "\<exists>t. getAllLoop opts cid pages [] JNull 0
              = (t, Returned ([] @ concat (map (pageOutput opts) (take (Suc m) pages))))
           \<and> searchCalls t = Suc m"
    using assms(2-5) unfolding N by (intro getAllLoop_pages) simp_all
  moreover have "length (concat (map (pageOutput opts) (take N pages)))
               = sum_list (map (\<lambda>pg. length (itemsOf (fst pg))) (take N pages))"
    by (simp add: length_concat pageOutput_length comp_def)
  ultimately show ?thesis
    by (simp add: getAllChannelVideos_def N)
qed

theorem getAllChannelVideos_pagination_witness:
  "(1::nat) \<le> 2 \<and> 2 \<le> length channel73
   \<and> pageSucceeds libOptions (channel73 ! 0) \<and> pageSucceeds libOptions (channel73 ! 1)
   \<and> hasCursor (channel73 ! 0) \<and> \<not> hasCursor (channel73 ! 1)
   \<and> length (itemsOf (fst (channel73 ! 0))) = 50 \<and> length (itemsOf (fst (channel73 ! 1))) = 23
   \<and> (\<exists>t out. getAllChannelVideos libOptions (JStr ''UCBJycsmduvYEL83R_U4JriQ'') channel73
                 = (t, Returned out)
              \<and> searchCalls t = 2 \<and> length out = 73)"
proof -
  have l: "2 \<le> length channel73" by (simp add: channel73_def)
  have p0: "pageSucceeds libOptions (channel73 ! 0)" by code_simp
  have p1: "pageSucceeds libOptions (channel73 ! 1)" by code_simp
  have c0: "hasCursor (channel73 ! 0)" by code_simp
  have c1: "\<not> hasCursor (channel73 ! 1)" by code_simp
  have n0: "length (itemsOf (fst (channel73 ! 0))) = 50" by code_simp
  have n1: "length (itemsOf (fst (channel73 ! 1))) = 23" by code_simp
  have h3: "\<forall>i<2. pageSucceeds libOptions (channel73 ! i)"
    using p0 p1 by (auto simp: less_Suc_eq numeral_2_eq_2)
  have h4: "\<forall>i<2 - 1. hasCursor (channel73 ! i)"
    using c0 by simp
  have h5: "\<not> hasCursor (channel73 ! (2 - 1))"
    using c1 by simp
  have s: "sum_list (map (\<lambda>pg. length (itemsOf (fst pg))) (take 2 channel73)) = 73"
    using n0 n1 by (simp add: channel73_def)
  from getAllChannelVideos_pagination [OF _ l h3 h4 h5, of "JStr ''UCBJycsmduvYEL83R_U4JriQ''"] s
  have "\<exists>t out. getAllChannelVideos libOptions (JStr ''UCBJycsmduvYEL83R_U4JriQ'') channel73
                 = (t, Returned out)
              \<and> searchCalls t = 2 \<and> length out = 73"
    by auto
  with l p0 p1 c0 c1 n0 n1 show ?thesis by simp
qed

text \<open>
  C10. For every script of page replies, \<open>streamAllChannelVideos\<close> ends as
  \<open>getAllChannelVideos\<close> does on the same replies and options (the same returned
  array, the same thrown error, or both pending); without the callback invocations its
  trace is that of \<open>getAllChannelVideos\<close>; and the array it returns is the concatenation
  of the batches it passed to \<open>onVideos\<close>.
\<close>

theorem stream_collector_agree:
  "snd (streamAllChannelVideos opts cid pages) = snd (getAllChannelVideos opts cid pages)
   \<and> filter (\<lambda>e. \<not> isCallback e) (fst (streamAllChannelVideos opts cid pages))
       = fst (getAllChannelVideos opts cid pages)
   \<and> (\<forall>out. snd (streamAllChannelVideos opts cid pages) = Returned out
        \<longrightarrow> out = delivered (fst (streamAllChannelVideos opts cid pages)))"
  using stream_getAll [of opts cid pages "[]" JNull 0]
  by (simp add: streamAllChannelVideos_def getAllChannelVideos_def)

theorem stream_collector_agree_witness:
  "snd (streamAllChannelVideos libOptions (JStr ''UCBJycsmduvYEL83R_U4JriQ'') twoPages)
     = Returned [sampleItem ''a'', merged [sampleDetail ''b''] (sampleItem ''b''),
                 merged [sampleDetail ''c''] (sampleItem ''c'')]
   \<and> snd (getAllChannelVideos libOptions (JStr ''UCBJycsmduvYEL83R_U4JriQ'') twoPages)
     = Returned [sampleItem ''a'', merged [sampleDetail ''b''] (sampleItem ''b''),
                 merged [sampleDetail ''c''] (sampleItem ''c'')]
   \<and> delivered (fst (streamAllChannelVideos libOptions (JStr ''UCBJycsmduvYEL83R_U4JriQ'') twoPages))
     = [sampleItem ''a'', merged [sampleDetail ''b''] (sampleItem ''b''),
        merged [sampleDetail ''c''] (sampleItem ''c'')]"
proof -
  have s: "snd (streamAllChannelVideos libOptions (JStr ''UCBJycsmduvYEL83R_U4JriQ'') twoPages)
     = Returned [sampleItem ''a'', merged [sampleDetail ''b''] (sampleItem ''b''),
                 merged [sampleDetail ''c''] (sampleItem ''c'')]"
    by code_simp
  note agree = stream_collector_agree [of libOptions "JStr ''UCBJycsmduvYEL83R_U4JriQ''" twoPages]
  from agree have a1: "snd (streamAllChannelVideos libOptions (JStr ''UCBJycsmduvYEL83R_U4JriQ'') twoPages)
      = snd (getAllChannelVideos libOptions (JStr ''UCBJycsmduvYEL83R_U4JriQ'') twoPages)"
    by (rule conjunct1)
  from agree have a3: "\<forall>out. snd (streamAllChannelVideos libOptions (JStr ''UCBJycsmduvYEL83R_U4JriQ'') twoPages) = Returned out
        \<longrightarrow> out = delivered (fst (streamAllChannelVideos libOptions (JStr ''UCBJycsmduvYEL83R_U4JriQ'') twoPages))"
    by (rule conjunct2 [THEN conjunct2])
  have g: "snd (getAllChannelVideos libOptions (JStr ''UCBJycsmduvYEL83R_U4JriQ'') twoPages)
     = Returned [sampleItem ''a'', merged [sampleDetail ''b''] (sampleItem ''b''),
                 merged [sampleDetail ''c''] (sampleItem ''c'')]"
    unfolding a1 [symmetric] by (rule s)
  note d = a3 [rule_format, OF s, symmetric]
  from s g d show ?thesis by (intro conjI)
qed

section \<open>Progress notifications\<close>

lemma progressAtHead_split:
  "progressAtHead k fetched (pre @ OptProgress p # post) \<Longrightarrow>
     page p = Suc (k + searchCalls pre)
   \<and> totalFetched p = fetched + length (delivered pre)
   \<and> (\<exists>ps rest. post = ApiCall (SearchVideos ps) # rest)"
proof (induction k fetched pre rule: progressAtHead.induct)
  case (1 k fetched)
  then show ?case
    by (auto split: list.splits effect.splits request.splits)
qed (auto simp: searchCalls_Cons)

lemma progressAtHead_page:
  "progressAtHead k fetched (fst (pageVideos opts dr d) @ es) = progressAtHead k fetched es"
  using pageVideos_trace [of opts dr d] by auto

lemma fst_emit [simp]: "fst (emit ev) = [ev]" and snd_emit [simp]: "snd (emit ev) = Returned ()"
  by (simp_all add: emit_def)

lemma fst_ret [simp]: "fst (ret x) = []" and snd_ret [simp]: "snd (ret x) = Returned x"
  by (simp_all add: ret_def)

lemma fst_await [simp]: "fst (await req r) = [ApiCall req]"
  by (simp add: await_def)

lemma snd_await [simp]:
  "snd (await req r) = (case r of Inl e \<Rightarrow> Threw e | Inr d \<Rightarrow> Returned d)"
  by (simp add: await_def)

lemma fst_notify [simp]: "fst (notify vs) = (if vs = [] then [] else [OptVideos vs])"
  and snd_notify [simp]: "snd (notify vs) = Returned ()"
  by (simp_all add: notify_def)

lemma streamLoop_trace:
  "fst (streamLoop opts cid ((sr, dr) # pages) acc tok n) =
     OptProgress \<lparr> page = Suc n, totalFetched = length acc, hasMore = truthy tok \<rparr>
     # ApiCall (SearchVideos (searchParamsOf opts cid tok))
     # (case sr of
          Inl e \<Rightarrow> []
        | Inr d \<Rightarrow>
            fst (pageVideos opts dr d)
            @ (case snd (pageVideos opts dr d) of
                 Returned vs \<Rightarrow>
                   (if vs = [] then [] else [OptVideos vs])
                   @ (if truthy (tokenOf d) then
                        Sleep 100 # fst (streamLoop opts cid pages (acc @ vs) (tokenOf d) (Suc n))
                      else [])
               | _ \<Rightarrow> []))"
  by (simp add: streamLoop_Cons fst_andThen snd_andThen split: sum.splits outcome.splits)

lemma streamLoop_progress:
  "progressAtHead n (length acc) (fst (streamLoop opts cid pages acc tok n))"
proof (induction pages arbitrary: acc tok n)
  case Nil
  then show ?case by simp
next
  case (Cons pg pages)
  obtain sr dr where pg: "pg = (sr, dr)" by (cases pg)
  show ?case
  proof (cases sr)
    case (Inl e)
    then show ?thesis
      by (simp add: pg streamLoop_trace)
  next
    case (Inr d)
    show ?thesis
    proof (cases "snd (pageVideos opts dr d)")
      case (Returned vs)
      show ?thesis
        using Returned Cons.IH [where acc = "acc @ vs" and tok = "tokenOf d" and n = "Suc n"]
        by (cases "vs = []") (simp_all add: pg Inr streamLoop_trace progressAtHead_page)
    next
      case (Threw e)
      then show ?thesis
        using progressAtHead_page [of "Suc n" "length acc" opts dr d "[]"]
        by (simp add: pg Inr streamLoop_trace)
    next
      case Pending
      then show ?thesis
        using progressAtHead_page [of "Suc n" "length acc" opts dr d "[]"]
        by (simp add: pg Inr streamLoop_trace)
    qed
  qed
qed

lemma callsAnnounced_split:
  "callsAnnounced b (pre @ ApiCall (SearchVideos ps) # post) \<Longrightarrow>
     (pre = [] \<and> b) \<or> (\<exists>before p. pre = before @ [OptProgress p])"
proof (induction b pre rule: callsAnnounced.induct)
  case (2 b p es)
  then show ?case
    by (cases es) (auto simp: Cons_eq_append_conv)
qed (auto simp: Cons_eq_append_conv)

lemma callsAnnounced_skip:
  "\<forall>e\<in>set t. \<not> isSearchVideos e \<Longrightarrow> (\<And>b. callsAnnounced b es) \<Longrightarrow> callsAnnounced b (t @ es)"
  by (induction b t rule: callsAnnounced.induct) auto

lemma pageVideos_no_search: "\<forall>e\<in>set (fst (pageVideos opts dr d)). \<not> isSearchVideos e"
  using pageVideos_trace [of opts dr d] by auto

lemma streamLoop_announced:
  "callsAnnounced b (fst (streamLoop opts cid pages acc tok n))"
proof (induction pages arbitrary: acc tok n b)
  case Nil
  then show ?case by simp
next
  case (Cons pg pages)
  obtain sr dr where pg: "pg = (sr, dr)" by (cases pg)
  show ?case
  proof (cases sr)
    case (Inl e)
    then show ?thesis by (simp add: pg streamLoop_trace)
  next
    case (Inr d)
    let ?t1 = "fst (pageVideos opts dr d)"
    show ?thesis
    proof (cases "snd (pageVideos opts dr d)")
      case (Returned vs)
      let ?tn = "if vs = [] then [] else [OptVideos vs]"
      show ?thesis
      proof (cases "truthy (tokenOf d)")
        case True
        have ns: "\<forall>e\<in>set (?t1 @ ?tn @ [Sleep 100]). \<not> isSearchVideos e"
          using pageVideos_no_search [of opts dr d] by auto
        have "callsAnnounced False
                ((?t1 @ ?tn @ [Sleep 100]) @ fst (streamLoop opts cid pages (acc @ vs) (tokenOf d) (Suc n)))"
          using ns Cons.IH by (rule callsAnnounced_skip)
        then show ?thesis
          using Returned True by (simp add: pg Inr streamLoop_trace)
      next
        case False
        have ns: "\<forall>e\<in>set (?t1 @ ?tn). \<not> isSearchVideos e"
          using pageVideos_no_search [of opts dr d] by auto
        have "callsAnnounced False ((?t1 @ ?tn) @ [])"
          using ns by (rule callsAnnounced_skip) simp
        then show ?thesis
          using Returned False by (simp add: pg Inr streamLoop_trace)
      qed
    next
      case (Threw e)
      have "callsAnnounced False (?t1 @ [])"
        using pageVideos_no_search [of opts dr d] by (rule callsAnnounced_skip) simp
      with Threw show ?thesis by (simp add: pg Inr streamLoop_trace)
    next
      case Pending
      have "callsAnnounced False (?t1 @ [])"
        using pageVideos_no_search [of opts dr d] by (rule callsAnnounced_skip) simp
      with Pending show ?thesis by (simp add: pg Inr streamLoop_trace)
    qed
  qed
qed

lemma streamLoop_searches: "1 \<le> searchCalls (fst (streamLoop opts cid pages acc tok n))"
proof (cases pages)
  case Nil
  then show ?thesis by (simp add: searchCalls_Cons)
next
  case (Cons pg rest)
  obtain sr dr where pg: "pg = (sr, dr)" by (cases pg)
  show ?thesis by (simp add: Cons pg streamLoop_trace searchCalls_Cons)
qed

text \<open>
  C6, as the code has it: \<open>streamAllChannelVideos\<close> notifies progress at the head of
  every iteration and nowhere else. Every paginated search call is immediately preceded
  by a progress notification, whose page number is one more than the number of search
  calls issued before it and whose fetched is the number of videos handed to
  \<open>onVideos\<close> before it, that is, the videos of the pages already completed. Conversely
  every progress notification carries these two numbers and stands immediately before a
  search call, so none follows the delivery of the last page. There is at least one
  search call, hence at least one notification.
\<close>

theorem progress_at_head:
  "(\<forall>pre ps post.
      fst (streamAllChannelVideos opts cid pages) = pre @ ApiCall (SearchVideos ps) # post \<longrightarrow>
      (\<exists>before p. pre = before @ [OptProgress p]
         \<and> page p = Suc (searchCalls before)
         \<and> totalFetched p = length (delivered before)))
   \<and> (\<forall>pre p post.
      fst (streamAllChannelVideos opts cid pages) = pre @ OptProgress p # post \<longrightarrow>
      page p = Suc (searchCalls pre)
      \<and> totalFetched p = length (delivered pre)
      \<and> (\<exists>ps rest. post = ApiCall (SearchVideos ps) # rest))
   \<and> 1 \<le> searchCalls (fst (streamAllChannelVideos opts cid pages))"
proof -
  let ?t = "fst (streamAllChannelVideos opts cid pages)"
  have h: "progressAtHead 0 0 ?t"
    using streamLoop_progress [of 0 "[]" opts cid pages JNull]
    by (simp add: streamAllChannelVideos_def)
  have a: "callsAnnounced False ?t"
    using streamLoop_announced [of False opts cid pages "[]" JNull 0]
    by (simp add: streamAllChannelVideos_def)
  have s: "1 \<le> searchCalls ?t"
    using streamLoop_searches [of opts cid pages "[]" JNull 0]
    by (simp add: streamAllChannelVideos_def)
  have second: "page p = Suc (searchCalls pre) \<and> totalFetched p = length (delivered pre)
      \<and> (\<exists>ps rest. post = ApiCall (SearchVideos ps) # rest)"
    if "?t = pre @ OptProgress p # post" for pre p post
    using h that progressAtHead_split [of 0 0 pre p post] by simp
  have first: "\<exists>before p. pre = before @ [OptProgress p]
         \<and> page p = Suc (searchCalls before)
         \<and> totalFetched p = length (delivered before)"
    if t: "?t = pre @ ApiCall (SearchVideos ps) # post" for pre ps post
  proof -
    from a t have "callsAnnounced False (pre @ ApiCall (SearchVideos ps) # post)" by simp
    then obtain before p where pre: "pre = before @ [OptProgress p]"
      using callsAnnounced_split by blast
    with t have "?t = before @ OptProgress p # (ApiCall (SearchVideos ps) # post)" by simp
    from second [OF this] pre show ?thesis by blast
  qed
  from first second s show ?thesis by blast
qed

text \<open>
  C6 as stated fails: in a run over a single page of two videos, the only progress
  notification carries page 1 and total 0 and is emitted before page 1's search call;
  after the page's videos are handed to \<open>onVideos\<close> no notification follows.
\<close>

theorem progress_at_head_counterexample:
  "fst (streamAllChannelVideos libOptions (JStr ''UCBJycsmduvYEL83R_U4JriQ'')
          [samplePage [''a'', ''b''] [''b''] None])
   = [OptProgress \<lparr> page = 1, totalFetched = 0, hasMore = False \<rparr>,
      ApiCall (SearchVideos (searchParamsOf libOptions (JStr ''UCBJycsmduvYEL83R_U4JriQ'') JNull)),
      ApiCall (VideosList ''a,b''),
      OptVideos [sampleItem ''a'', merged [sampleDetail ''b''] (sampleItem ''b'')]]"
  by code_simp

theorem progress_at_head_witness:
  "fst (streamAllChannelVideos libOptions (JStr ''UCBJycsmduvYEL83R_U4JriQ'') twoPages)
   = [OptProgress \<lparr> page = 1, totalFetched = 0, hasMore = False \<rparr>,
      ApiCall (SearchVideos (searchParamsOf libOptions (JStr ''UCBJycsmduvYEL83R_U4JriQ'') JNull)),
      ApiCall (VideosList ''a,b''),
      OptVideos [sampleItem ''a'', merged [sampleDetail ''b''] (sampleItem ''b'')],
      Sleep 100]
     @ OptProgress \<lparr> page = 2, totalFetched = 2, hasMore = True \<rparr>
     # [ApiCall (SearchVideos (searchParamsOf libOptions (JStr ''UCBJycsmduvYEL83R_U4JriQ'') (JStr ''CAIQAA''))),
        ApiCall (VideosList ''c''),
        OptVideos [merged [sampleDetail ''c''] (sampleItem ''c'')]]
   \<and> page \<lparr> page = 2, totalFetched = 2, hasMore = True \<rparr> = Suc 1
   \<and> totalFetched \<lparr> page = 2, totalFetched = 2, hasMore = True \<rparr> = 2"
proof -
  have t: "fst (streamAllChannelVideos libOptions (JStr ''UCBJycsmduvYEL83R_U4JriQ'') twoPages)
   = [OptProgress \<lparr> page = 1, totalFetched = 0, hasMore = False \<rparr>,
      ApiCall (SearchVideos (searchParamsOf libOptions (JStr ''UCBJycsmduvYEL83R_U4JriQ'') JNull)),
      ApiCall (VideosList ''a,b''),
      OptVideos [sampleItem ''a'', merged [sampleDetail ''b''] (sampleItem ''b'')],
      Sleep 100]
     @ OptProgress \<lparr> page = 2, totalFetched = 2, hasMore = True \<rparr>
     # [ApiCall (SearchVideos (searchParamsOf libOptions (JStr ''UCBJycsmduvYEL83R_U4JriQ'') (JStr ''CAIQAA''))),
        ApiCall (VideosList ''c''),
        OptVideos [merged [sampleDetail ''c''] (sampleItem ''c'')]]"
    by code_simp
  note h = progress_at_head [of libOptions "JStr ''UCBJycsmduvYEL83R_U4JriQ''" twoPages]
  from h have "\<forall>pre p post.
      fst (streamAllChannelVideos libOptions (JStr ''UCBJycsmduvYEL83R_U4JriQ'') twoPages)
        = pre @ OptProgress p # post \<longrightarrow>
      page p = Suc (searchCalls pre) \<and> totalFetched p = length (delivered pre)
      \<and> (\<exists>ps rest. post = ApiCall (SearchVideos ps) # rest)"
    by (rule conjunct1 [OF conjunct2])
  from this [rule_format, OF t] t show ?thesis by simp
qed

section \<open>The streaming route\<close>

lemma written_append [simp]: "written (a @ b) = written a @ written b"
  by (induction a rule: written.induct) auto

lemma streamLoop_loopEvents: "list_all loopEvent (fst (streamLoop opts cid pages acc tok n))"
proof (induction pages arbitrary: acc tok n)
  case Nil
  then show ?case by simp
next
  case (Cons pg pages)
  obtain sr dr where pg: "pg = (sr, dr)" by (cases pg)
  have p: "list_all loopEvent (fst (pageVideos opts dr d))" for d
    using pageVideos_trace [of opts dr d] by auto
  show ?case
    using Cons.IH p
    by (auto simp: pg streamLoop_trace split: sum.splits outcome.splits)
qed

lemma relay_sessionEvents: "loopEvent e \<Longrightarrow> list_all sessionEvent (relay e)"
  by (cases e) (auto simp: list_all_iff)

lemma relayed_sessionEvents:
  "list_all loopEvent t \<Longrightarrow> list_all sessionEvent (concat (map relay t))"
  by (induction t) (auto simp: relay_sessionEvents)

lemma getChannelId_trace:
  "fst (getChannelId r input) = [] \<or> (\<exists>q. fst (getChannelId r input) = [ApiCall (SearchChannels q)])"
proof (cases input)
  case (JStr s)
  have l: "fst (liftE m) = []" for m :: "jserror + string"
    by (cases m) (simp_all add: liftE_def)
  show ?thesis
    by (simp add: JStr getChannelId_def fst_andThen channelSearch_calls l raise_def
        split: outcome.splits)
qed (simp_all add: getChannelId_def raise_def)

lemma getChannelInfo_trace: "fst (getChannelInfo r cid) = [ApiCall (ChannelsList cid)]"
  by (auto simp: getChannelInfo_def fst_andThen liftE_def raise_def
      split: outcome.splits option.splits list.splits sum.splits)

lemma bodyShape_andThen:
  assumes "list_all sessionEvent (fst m)" and "\<And>x. snd m = Returned x \<Longrightarrow> bodyShape (f x)"
  shows "bodyShape (andThen m f)"
proof (cases "snd m")
  case (Returned x)
  from assms(2) [OF Returned] have b: "bodyShape (f x)" .
  show ?thesis
  proof (cases "snd (f x)")
    case r: (Returned u)
    with b obtain mid y where "fst (f x) = mid @ [CbComplete y]" "list_all sessionEvent mid" "noTypeKey y"
      by (auto simp: bodyShape_def)
    with assms(1) Returned r show ?thesis
      unfolding bodyShape_def fst_andThen snd_andThen
      by (auto intro!: exI [of _ "fst m @ mid"])
  next
    case (Threw e)
    with b assms(1) Returned show ?thesis
      by (simp add: bodyShape_def fst_andThen snd_andThen)
  next
    case Pending
    with b assms(1) Returned show ?thesis
      by (simp add: bodyShape_def fst_andThen snd_andThen)
  qed
next
  case (Threw e)
  with assms(1) show ?thesis by (simp add: bodyShape_def fst_andThen snd_andThen)
next
  case Pending
  with assms(1) show ?thesis by (simp add: bodyShape_def fst_andThen snd_andThen)
qed

lemma streamBody_shape: "bodyShape (streamBody up channelInput)"
  unfolding streamBody_def
proof (intro bodyShape_andThen)
  show "list_all sessionEvent (fst (getChannelId (lookupReply up) channelInput))"
    using getChannelId_trace [of "lookupReply up" channelInput] by auto
  show "list_all sessionEvent (fst (getChannelInfo (infoReply up) cid))" for cid
    by (simp add: getChannelInfo_trace)
  show "list_all sessionEvent (fst (liftE (getProp ci ''title'')))" for ci
    by (cases "getProp ci ''title''") (simp_all add: liftE_def)
  show "list_all sessionEvent
          (fst (relayed (streamAllChannelVideos libOptions cid (pageReplies up))))" for cid
    by (simp add: relayed_def streamAllChannelVideos_def relayed_sessionEvents streamLoop_loopEvents)
  show "bodyShape (emit (CbComplete (JObj [(''message'', JStr ''All videos fetched successfully''),
                                          (''channelInfo'', ci)])))" for ci
    by (simp add: bodyShape_def)
qed simp_all

lemma fst_tryCatch:
  "fst (tryCatch c h) = fst c @ (case snd c of Threw e \<Rightarrow> fst (h e) | _ \<Rightarrow> [])"
proof (cases c)
  case (Pair t r)
  then show ?thesis by (cases r) (auto split: prod.splits)
qed

lemma serve_append:
  "serve n (a @ b) = serve n a @ serve (n + length (filter isCbVideo a)) b"
  by (induction n a rule: serve.induct) simp_all

lemma evType_progress:
  assumes "noTypeKey p"
  shows "evType (JObj (spreadInto [(''type'', JStr t)] p)) = JStr t"
proof -
  from assms obtain kvs where p: "p = JObj kvs" and k: "''type'' \<notin> set (map fst kvs)"
    by (cases p) auto
  have d0: "distinct (map fst [(''type'', JStr t)])" by simp
  have d: "distinct (map fst (spreadInto [(''type'', JStr t)] (JObj kvs)))"
    using d0 by (rule spreadInto_distinct)
  from k have n: "map_of (rev kvs) ''type'' = None"
    by (simp add: map_of_eq_None_iff)
  have "map_of (rev (spreadInto [(''type'', JStr t)] (JObj kvs))) ''type'' = Some (JStr t)"
    by (simp add: map_of_rev_distinct [OF d] spreadInto_map_of [OF d0] n map_add_def)
  then show ?thesis
    by (simp add: evType_def p)
qed

lemma evType_complete:
  assumes "noTypeKey c"
  shows "evType (JObj (setProp ''totalVideos'' v (spreadInto [(''type'', JStr ''complete'')] c)))
         = JStr ''complete''"
proof -
  from assms obtain kvs where c: "c = JObj kvs" and k: "''type'' \<notin> set (map fst kvs)"
    by (cases c) auto
  have d0: "distinct (map fst [(''type'', JStr ''complete'')])" by simp
  have d1: "distinct (map fst (spreadInto [(''type'', JStr ''complete'')] (JObj kvs)))"
    using d0 by (rule spreadInto_distinct)
  have d: "distinct (map fst (setProp ''totalVideos'' v
             (spreadInto [(''type'', JStr ''complete'')] (JObj kvs))))"
    using d1 by (rule setProp_distinct)
  from k have n: "map_of (rev kvs) ''type'' = None"
    by (simp add: map_of_eq_None_iff)
  have "map_of (rev (setProp ''totalVideos'' v
             (spreadInto [(''type'', JStr ''complete'')] (JObj kvs)))) ''type''
        = Some (JStr ''complete'')"
    by (simp add: map_of_rev_distinct [OF d] setProp_map_of spreadInto_map_of [OF d0] n map_add_def)
  then show ?thesis
    by (simp add: evType_def c)
qed

lemma serve_mid:
  "list_all sessionEvent mid \<Longrightarrow>
     (\<forall>ev\<in>set (written (serve n mid)). evType ev = JStr ''progress'' \<or> evType ev = JStr ''video'')
   \<and> map (\<lambda>ev. getProp ev ''count'')
         (filter (\<lambda>ev. evType ev = JStr ''video'') (written (serve n mid)))
       = map (\<lambda>i. Inr (JNum (int i))) [Suc n..<Suc (n + length (filter isCbVideo mid))]"
proof (induction mid arbitrary: n)
  case Nil
  then show ?case by simp
next
  case (Cons e mid)
  from Cons.prems have m: "list_all sessionEvent mid" and e: "sessionEvent e" by simp_all
  note IH = Cons.IH [OF m]
  show ?case
  proof (cases e)
    case (CbProgress p)
    with e have "noTypeKey p" by simp
    then have "evType (JObj (spreadInto [(''type'', JStr ''progress'')] p)) = JStr ''progress''"
      by (rule evType_progress)
    with IH [of n] show ?thesis by (simp add: CbProgress)
  next
    case (CbVideo video)
    let ?ev = "JObj [(''type'', JStr ''video''), (''video'', video),
                     (''count'', JNum (int (Suc n)))]"
    let ?k = "length (filter isCbVideo mid)"
    have t: "evType ?ev = JStr ''video''"
      by (simp add: evType_def)
    have c: "getProp ?ev ''count'' = Inr (JNum (int (Suc n)))"
      by simp
    have w: "written (serve n (e # mid)) = ?ev # written (serve (Suc n) mid)"
      by (simp add: CbVideo)
    have l: "length (filter isCbVideo (e # mid)) = Suc ?k"
      by (simp add: CbVideo)
    have u: "[Suc n..<Suc (n + Suc ?k)] = Suc n # [Suc (Suc n)..<Suc (Suc n + ?k)]"
      by (simp add: upt_conv_Cons del: upt_Suc)
    from IH [of "Suc n"] have i1: "\<forall>ev\<in>set (written (serve (Suc n) mid)).
         evType ev = JStr ''progress'' \<or> evType ev = JStr ''video''"
      and i2: "map (\<lambda>ev. getProp ev ''count'')
         (filter (\<lambda>ev. evType ev = JStr ''video'') (written (serve (Suc n) mid)))
       = map (\<lambda>i. Inr (JNum (int i))) [Suc (Suc n)..<Suc (Suc n + ?k)]"
      by blast+
    show ?thesis
      unfolding w l u using i1 i2 t c by (simp del: upt_Suc getProp.simps)
  qed (use e IH [of n] in simp_all)
qed

lemma serve_mid_counts:
  assumes "list_all sessionEvent mid"
  shows "map (\<lambda>ev. getProp ev ''count'')
           (filter (\<lambda>ev. evType ev = JStr ''video'') (written (serve 0 mid)))
         = map (\<lambda>i. Inr (JNum (int i)))
             [1..<Suc (length (filter (\<lambda>ev. evType ev = JStr ''video'') (written (serve 0 mid))))]"
proof -
  let ?vs = "filter (\<lambda>ev. evType ev = JStr ''video'') (written (serve 0 mid))"
  let ?k = "length (filter isCbVideo mid)"
  from serve_mid [OF assms, of 0]
  have c: "map (\<lambda>ev. getProp ev ''count'') ?vs = map (\<lambda>i. Inr (JNum (int i))) [Suc 0..<Suc ?k]"
    by (simp del: upt_Suc)
  have "length (map (\<lambda>ev. getProp ev ''count'') ?vs)
           = length (map (\<lambda>i. Inr (JNum (int i)) :: jserror + jsval) [Suc 0..<Suc ?k])"
    by (simp only: c)
  then have "length ?vs = Suc ?k - Suc 0"
    by (simp only: length_map length_upt)
  then have "length ?vs = ?k" by simp
  with c show ?thesis by (simp del: upt_Suc)
qed

text \<open>
  C5 (streaming order). In a streaming session (the \<open>channel\<close> parameter is truthy) the
  objects written to the response are: \<open>connected\<close> first; then only \<open>progress\<close> and
  \<open>video\<close> events; then, when the fetch succeeds, exactly one \<open>complete\<close> event and no
  \<open>error\<close>, and when it throws, exactly one \<open>error\<close> event with the error's message
  and no \<open>complete\<close>; while an upstream call stays unanswered nothing terminal is
  written. The \<open>count\<close> fields of the \<open>video\<close> events are 1, 2, 3, ... in order.
\<close>

theorem stream_event_order:
  assumes "truthy channelInput"
  shows "\<exists>mid final.
      written (streamRoute up channelInput) = connected # mid @ final
    \<and> evType connected = JStr ''connected''
    \<and> (\<forall>ev\<in>set mid. evType ev = JStr ''progress'' \<or> evType ev = JStr ''video'')
    \<and> (case snd (streamBody up channelInput) of
         Returned u \<Rightarrow> (\<exists>c. final = [c] \<and> evType c = JStr ''complete'')
       | Threw e \<Rightarrow> final = [JObj [(''type'', JStr ''error''), (''message'', JStr (errMessage e))]]
       | Pending \<Rightarrow> final = [])
    \<and> map (\<lambda>ev. getProp ev ''count'')
          (filter (\<lambda>ev. evType ev = JStr ''video'') (written (streamRoute up channelInput)))
        = map (\<lambda>i. Inr (JNum (int i)))
            [1..<Suc (length (filter (\<lambda>ev. evType ev = JStr ''video'')
                                (written (streamRoute up channelInput))))]"
proof -
  let ?body = "streamBody up channelInput"
  have tc: "evType connected = JStr ''connected''"
    by (simp add: connected_def evType_def)
  have nv: "evType connected \<noteq> JStr ''video''"
    by (simp add: tc)
  have route: "written (streamRoute up channelInput)
        = connected # written (serve 0 (fst (streamYoutubeVideos up channelInput)))"
    using assms by (simp add: streamRoute_def)
  have sh: "bodyShape ?body" by (rule streamBody_shape)
  show ?thesis
  proof (cases "snd ?body")
    case (Returned u)
    with sh obtain mid0 x where b: "fst ?body = mid0 @ [CbComplete x]"
      and m: "list_all sessionEvent mid0" and x: "noTypeKey x"
      by (auto simp: bodyShape_def)
    let ?c = "JObj (setProp ''totalVideos'' (JNum (int (length (filter isCbVideo mid0))))
                      (spreadInto [(''type'', JStr ''complete'')] x))"
    have tcomp: "evType ?c = JStr ''complete''"
      using x by (rule evType_complete)
    have w: "written (streamRoute up channelInput) = connected # written (serve 0 mid0) @ [?c]"
      by (simp add: route streamYoutubeVideos_def fst_tryCatch Returned b serve_append)
    have f: "filter (\<lambda>ev. evType ev = JStr ''video'') (written (streamRoute up channelInput))
           = filter (\<lambda>ev. evType ev = JStr ''video'') (written (serve 0 mid0))"
      unfolding w using nv tcomp by simp
    show ?thesis
      unfolding f
      using w tc tcomp serve_mid [OF m, of 0] serve_mid_counts [OF m] Returned
      by (intro exI [of _ "written (serve 0 mid0)"] exI [of _ "[?c]"]) simp
  next
    case (Threw e)
    with sh have m: "list_all sessionEvent (fst ?body)"
      by (simp add: bodyShape_def)
    let ?c = "JObj [(''type'', JStr ''error''), (''message'', JStr (errMessage e))]"
    have terr: "evType ?c = JStr ''error''"
      by (simp add: evType_def)
    have w: "written (streamRoute up channelInput)
           = connected # written (serve 0 (fst ?body)) @ [?c]"
      by (simp add: route streamYoutubeVideos_def fst_tryCatch Threw serve_append)
    have f: "filter (\<lambda>ev. evType ev = JStr ''video'') (written (streamRoute up channelInput))
           = filter (\<lambda>ev. evType ev = JStr ''video'') (written (serve 0 (fst ?body)))"
      unfolding w using nv terr by simp
    show ?thesis
      unfolding f
      using w tc serve_mid [OF m, of 0] serve_mid_counts [OF m] Threw
      by (intro exI [of _ "written (serve 0 (fst ?body))"] exI [of _ "[?c]"]) simp
  next
    case Pending
    with sh have m: "list_all sessionEvent (fst ?body)"
      by (simp add: bodyShape_def)
    have w: "written (streamRoute up channelInput) = connected # written (serve 0 (fst ?body))"
      by (simp add: route streamYoutubeVideos_def fst_tryCatch Pending)
    have f: "filter (\<lambda>ev. evType ev = JStr ''video'') (written (streamRoute up channelInput))
           = filter (\<lambda>ev. evType ev = JStr ''video'') (written (serve 0 (fst ?body)))"
      unfolding w using nv by simp
    show ?thesis
      unfolding f
      using w tc serve_mid [OF m, of 0] serve_mid_counts [OF m] Pending
      by (intro exI [of _ "written (serve 0 (fst ?body))"] exI [of _ "[]"]) simp
  qed
qed

theorem stream_event_order_witness:
  "truthy (JStr ''UCBJycsmduvYEL83R_U4JriQ'') \<and> truthy (JStr ''mkbhd'')
   \<and> map evType (written (streamRoute (sampleUpstream twoPages) (JStr ''UCBJycsmduvYEL83R_U4JriQ'')))
       = [JStr ''connected'', JStr ''progress'', JStr ''progress'', JStr ''progress'',
          JStr ''progress'', JStr ''progress'', JStr ''video'', JStr ''video'',
          JStr ''progress'', JStr ''video'', JStr ''complete'']
   \<and> map (\<lambda>ev. getProp ev ''count'')
         (filter (\<lambda>ev. evType ev = JStr ''video'')
            (written (streamRoute (sampleUpstream twoPages) (JStr ''UCBJycsmduvYEL83R_U4JriQ''))))
       = [Inr (JNum 1), Inr (JNum 2), Inr (JNum 3)]
   \<and> written (streamRoute (sampleUpstream twoPages) (JStr ''mkbhd''))
       = [connected,
          JObj [(''type'', JStr ''progress''), (''stage'', JStr ''channel_lookup''),
                (''message'', JStr ''Looking up channel: mkbhd'')],
          JObj [(''type'', JStr ''error''), (''message'', JStr ''quotaExceeded'')]]"
proof -
  have h1: "truthy (JStr ''UCBJycsmduvYEL83R_U4JriQ'')" by simp
  have h2: "truthy (JStr ''mkbhd'')" by simp
  have a: "map evType (written (streamRoute (sampleUpstream twoPages) (JStr ''UCBJycsmduvYEL83R_U4JriQ'')))
       = [JStr ''connected'', JStr ''progress'', JStr ''progress'', JStr ''progress'',
          JStr ''progress'', JStr ''progress'', JStr ''video'', JStr ''video'',
          JStr ''progress'', JStr ''video'', JStr ''complete'']"
    by code_simp
  have b: "map (\<lambda>ev. getProp ev ''count'')
         (filter (\<lambda>ev. evType ev = JStr ''video'')
            (written (streamRoute (sampleUpstream twoPages) (JStr ''UCBJycsmduvYEL83R_U4JriQ''))))
       = [Inr (JNum 1), Inr (JNum 2), Inr (JNum 3)]"
    by code_simp
  have c: "written (streamRoute (sampleUpstream twoPages) (JStr ''mkbhd''))
       = [connected,
          JObj [(''type'', JStr ''progress''), (''stage'', JStr ''channel_lookup''),
                (''message'', JStr ''Looking up channel: mkbhd'')],
          JObj [(''type'', JStr ''error''), (''message'', JStr ''quotaExceeded'')]]"
    by code_simp
  from stream_event_order [OF h1, of "sampleUpstream twoPages"]
       stream_event_order [OF h2, of "sampleUpstream twoPages"] h1 h2 a b c
  show ?thesis by blast
qed

section \<open>Error reporting and disconnects\<close>

text \<open>
  Whatever makes the \<open>try\<close> block of \<open>fetchYoutubeVideos\<close> throw, the route answers
  with status 200 and the body \<open>undefined\<close>; when the block returns, it answers with
  status 200 and the videos.
\<close>

lemma videosRoute_on_failure:
  assumes "snd (fetchBody up channel) = Threw e"
  shows "videosRoute up channel
         = (fst (fetchBody up channel) @ [ResJson 200 JUndefined], Returned ())"
proof -
  from assms obtain t where "fetchBody up channel = (t, Threw e)"
    by (cases "fetchBody up channel") auto
  then show ?thesis
    by (simp add: videosRoute_def fetchYoutubeVideos_def ret_def emit_def)
qed

lemma videosRoute_on_success:
  assumes "snd (fetchBody up channel) = Returned videos"
  shows "videosRoute up channel
         = (fst (fetchBody up channel) @ [ResJson 200 videos], Returned ())"
proof -
  from assms obtain t where "fetchBody up channel = (t, Returned videos)"
    by (cases "fetchBody up channel") auto
  then show ?thesis
    by (simp add: videosRoute_def fetchYoutubeVideos_def emit_def)
qed

text \<open>
  C1 fails on the code: the resolver's search call is rejected (quota exceeded),
  \<open>fetchYoutubeVideos\<close> catches the error and returns \<open>undefined\<close>, and the route
  answers \<open>res.json(undefined)\<close> with status 200: the client gets a success status and
  no error body.
\<close>

theorem videosRoute_upstream_failure:
  "videosRoute (sampleUpstream twoPages) (JStr ''mkbhd'')
     = ([ApiCall (SearchChannels ''mkbhd''), ResJson 200 JUndefined], Returned ())"
  by code_simp

lemma closeDuring_filter:
  "filter (\<lambda>e. e \<noteq> CloseEvent) (closeDuring k t) = filter (\<lambda>e. e \<noteq> CloseEvent) t"
  by (induction k t rule: closeDuring.induct) (auto split: nat.splits)

lemma closeDuring_searchCalls: "searchCalls (closeDuring k t) = searchCalls t"
  by (induction k t rule: closeDuring.induct) (auto simp: searchCalls_Cons split: nat.splits)

lemma serve_searchCalls: "searchCalls (serve n t) = searchCalls t"
  by (induction n t rule: serve.induct) (simp_all add: searchCalls_Cons)

lemma serve_no_close: "CloseEvent \<notin> set t \<Longrightarrow> CloseEvent \<notin> set (serve n t)"
  by (induction n t rule: serve.induct) auto

lemma relay_searchCalls: "searchCalls (concat (map relay t)) = searchCalls t"
proof (induction t)
  case Nil
  then show ?case by simp
next
  case (Cons e t)
  have v: "searchCalls (map CbVideo vs) = 0" for vs
    by (induction vs) (simp_all add: searchCalls_Cons)
  from Cons show ?case
    by (cases e) (simp_all add: searchCalls_Cons v)
qed

lemma sessionEvent_no_close: "list_all sessionEvent t \<Longrightarrow> CloseEvent \<notin> set t"
  by (induction t) auto

lemma streamRoute_no_close: "CloseEvent \<notin> set (streamRoute up channelInput)"
proof -
  let ?b = "streamBody up channelInput"
  have sh: "bodyShape ?b" by (rule streamBody_shape)
  have "CloseEvent \<notin> set (fst (streamYoutubeVideos up channelInput))"
  proof (cases "snd ?b")
    case (Returned u)
    with sh obtain mid x where "fst ?b = mid @ [CbComplete x]" "list_all sessionEvent mid"
      by (auto simp: bodyShape_def)
    then show ?thesis
      using Returned sessionEvent_no_close [of mid]
      by (simp add: streamYoutubeVideos_def fst_tryCatch)
  next
    case (Threw e)
    with sh show ?thesis
      using sessionEvent_no_close [of "fst ?b"]
      by (simp add: streamYoutubeVideos_def fst_tryCatch bodyShape_def)
  next
    case Pending
    with sh show ?thesis
      using sessionEvent_no_close [of "fst ?b"]
      by (simp add: streamYoutubeVideos_def fst_tryCatch bodyShape_def)
  qed
  then show ?thesis
    by (simp add: streamRoute_def serve_no_close)
qed

lemma getChannelId_searchCalls: "searchCalls (fst (getChannelId r input)) = 0"
  using getChannelId_trace [of r input] by (auto simp: searchCalls_Cons)

lemma getChannelInfo_object:
  "snd (getChannelInfo r cid) = Returned ci \<Longrightarrow> \<exists>kvs. ci = JObj kvs"
  by (cases r)
     (auto simp: getChannelInfo_def snd_andThen await_def liftE_def raise_def channelInfoOf_def
                 bindE_Inr
           simp del: getPath.simps
           split: option.splits list.splits sum.splits)

lemma streamAll_pages:
  assumes "1 \<le> N" and "N \<le> length pages"
    and "\<forall>i<N. pageSucceeds opts (pages ! i)"
    and "\<forall>i<N - 1. hasCursor (pages ! i)"
    and "\<not> hasCursor (pages ! (N - 1))"
  shows "searchCalls (fst (streamAllChannelVideos opts cid pages)) = N
       \<and> (\<exists>out. snd (streamAllChannelVideos opts cid pages) = Returned out)"
proof -
  from assms(1) obtain m where N: "N = Suc m" by (cases N) auto
  have "\<exists>t. getAllLoop opts cid pages [] JNull 0
              = (t, Returned ([] @ concat (map (pageOutput opts) (take (Suc m) pages))))
           \<and> searchCalls t = Suc m"
    using assms(2-5) unfolding N by (intro getAllLoop_pages) simp_all
  then have g: "searchCalls (fst (getAllLoop opts cid pages [] JNull 0)) = N"
    and r: "\<exists>out. snd (getAllLoop opts cid pages [] JNull 0) = Returned out"
    by (auto simp: N)
  note sg = stream_getAll [of opts cid pages "[]" JNull 0]
  have f: "searchCalls (filter (\<lambda>e. \<not> isCallback e) t) = searchCalls t" for t
  proof (induction t)
    case Nil
    then show ?case by simp
  next
    case (Cons e t)
    then show ?case by (cases e) (simp_all add: searchCalls_Cons)
  qed
  from sg have "searchCalls (fst (streamLoop opts cid pages [] JNull 0))
              = searchCalls (fst (getAllLoop opts cid pages [] JNull 0))"
    using f [of "fst (streamLoop opts cid pages [] JNull 0)"] by simp
  with g r sg show ?thesis
    by (simp add: streamAllChannelVideos_def)
qed

lemma fst_relayed [simp]: "fst (relayed c) = concat (map relay (fst c))"
  and snd_relayed [simp]: "snd (relayed c) = snd c"
  by (simp_all add: relayed_def)

lemma fst_liftE [simp]: "fst (liftE m) = []"
  by (cases m) (simp_all add: liftE_def)

lemma snd_liftE [simp]: "snd (liftE m) = (case m of Inl e \<Rightarrow> Threw e | Inr x \<Rightarrow> Returned x)"
  by (cases m) (simp_all add: liftE_def)

lemma streamRoute_pages:
  assumes "truthy channelInput"
    and "snd (getChannelId (lookupReply up) channelInput) = Returned channelId"
    and "snd (getChannelInfo (infoReply up) channelId) = Returned channelInfo"
    and "1 \<le> N" and "N \<le> length (pageReplies up)"
    and "\<forall>i<N. pageSucceeds libOptions (pageReplies up ! i)"
    and "\<forall>i<N - 1. hasCursor (pageReplies up ! i)"
    and "\<not> hasCursor (pageReplies up ! (N - 1))"
  shows "searchCalls (streamRoute up channelInput) = N"
    and "ResEnd \<in> set (streamRoute up channelInput)"
proof -
  from assms(3) obtain kvs where ci: "channelInfo = JObj kvs"
    using getChannelInfo_object by blast
  from streamAll_pages [OF assms(4-8), of channelId]
  obtain out where
    sc: "searchCalls (fst (streamAllChannelVideos libOptions channelId (pageReplies up))) = N"
    and so: "snd (streamAllChannelVideos libOptions channelId (pageReplies up)) = Returned out"
    by blast
  have r: "snd (streamBody up channelInput) = Returned ()"
    using assms(2,3) so
    by (simp add: streamBody_def snd_andThen ci)
  have sb: "searchCalls (fst (streamBody up channelInput)) = N"
    using assms(2,3) so sc
    by (simp add: streamBody_def fst_andThen snd_andThen ci
          getChannelId_searchCalls getChannelInfo_trace searchCalls_Cons relay_searchCalls)
  have y: "fst (streamYoutubeVideos up channelInput) = fst (streamBody up channelInput)"
    using r by (simp add: streamYoutubeVideos_def fst_tryCatch)
  show "searchCalls (streamRoute up channelInput) = N"
    using assms(1) y sb
    by (simp add: streamRoute_def serve_searchCalls searchCalls_Cons)
  from streamBody_shape [of up channelInput] r
  obtain mid c where m: "fst (streamBody up channelInput) = mid @ [CbComplete c]"
    by (auto simp: bodyShape_def)
  have "serve 0 (mid @ [CbComplete c])
      = serve 0 mid @ serve (0 + length (filter isCbVideo mid)) [CbComplete c]"
    by (rule serve_append)
  then have "ResEnd \<in> set (serve 0 (fst (streamYoutubeVideos up channelInput)))"
    by (simp add: y m)
  then show "ResEnd \<in> set (streamRoute up channelInput)"
    using assms(1) by (simp add: streamRoute_def)
qed


lemma closeDuring_set: "set (closeDuring k t) = insert CloseEvent (set t)"
  by (induction k t rule: closeDuring.induct) (auto split: nat.splits)

text \<open>
  C2, as the code has it: a consumer disconnect is only logged. Take a streaming session
  whose channel resolves and whose first \<open>N \<ge> 1\<close> pages answer without failure,
  pages 1 to \<open>N - 1\<close> with a continuation cursor and page \<open>N\<close> with none. Whenever
  the consumer disconnects, the session is the undisturbed one with the listener's run
  put in: all \<open>N\<close> paginated search calls are issued, so the search calls that follow
  the disconnect are the \<open>N\<close> less those issued before it, and the response is ended
  as usual. The loop stops at the page without a cursor, not at the disconnect.
\<close>

theorem disconnect_does_not_stop_fetch:
  assumes "truthy channelInput"
    and "snd (getChannelId (lookupReply up) channelInput) = Returned channelId"
    and "snd (getChannelInfo (infoReply up) channelId) = Returned channelInfo"
    and "1 \<le> N" and "N \<le> length (pageReplies up)"
    and "\<forall>i<N. pageSucceeds libOptions (pageReplies up ! i)"
    and "\<forall>i<N - 1. hasCursor (pageReplies up ! i)"
    and "\<not> hasCursor (pageReplies up ! (N - 1))"
  shows "filter (\<lambda>e. e \<noteq> CloseEvent) (streamSession up channelInput (Some k))
           = streamRoute up channelInput
       \<and> searchCalls (streamSession up channelInput (Some k)) = N
       \<and> searchCalls (dropWhile (\<lambda>e. e \<noteq> CloseEvent) (streamSession up channelInput (Some k)))
           = N - searchCalls (takeWhile (\<lambda>e. e \<noteq> CloseEvent)
                                (streamSession up channelInput (Some k)))
       \<and> ResEnd \<in> set (streamSession up channelInput (Some k))
       \<and> streamSession up channelInput None = streamRoute up channelInput @ [CloseEvent]"
proof -
  let ?t = "streamRoute up channelInput"
  let ?s = "streamSession up channelInput (Some k)"
  have s: "?s = closeDuring k ?t"
    using assms(1) by (simp add: streamSession_def)
  have n: "searchCalls ?t = N" and e: "ResEnd \<in> set ?t"
    using assms by (rule streamRoute_pages)+
  have "filter (\<lambda>e. e \<noteq> CloseEvent) ?t = ?t"
    using streamRoute_no_close [of up channelInput] by (auto simp: filter_id_conv)
  then have c1: "filter (\<lambda>e. e \<noteq> CloseEvent) ?s = ?t"
    by (simp add: s closeDuring_filter)
  have c2: "searchCalls ?s = N"
    by (simp add: s closeDuring_searchCalls n)
  have "searchCalls (takeWhile (\<lambda>e. e \<noteq> CloseEvent) ?s @ dropWhile (\<lambda>e. e \<noteq> CloseEvent) ?s) = N"
    using c2 by simp
  then have c3: "searchCalls (dropWhile (\<lambda>e. e \<noteq> CloseEvent) ?s)
           = N - searchCalls (takeWhile (\<lambda>e. e \<noteq> CloseEvent) ?s)"
    by (simp only: searchCalls_append)
  have c4: "ResEnd \<in> set ?s"
    using e by (simp add: s closeDuring_set)
  have c5: "streamSession up channelInput None = ?t @ [CloseEvent]"
    using assms(1) e by (simp add: streamSession_def)
  from c1 c2 c3 c4 c5 show ?thesis by blast
qed

theorem disconnect_does_not_stop_fetch_witness:
  "truthy (JStr ''UCBJycsmduvYEL83R_U4JriQ'')
   \<and> snd (getChannelId (lookupReply (sampleUpstream threePages)) (JStr ''UCBJycsmduvYEL83R_U4JriQ''))
       = Returned (JStr ''UCBJycsmduvYEL83R_U4JriQ'')
   \<and> (1::nat) \<le> 3 \<and> 3 \<le> length (pageReplies (sampleUpstream threePages))
   \<and> pageSucceeds libOptions (pageReplies (sampleUpstream threePages) ! 0)
   \<and> pageSucceeds libOptions (pageReplies (sampleUpstream threePages) ! 1)
   \<and> pageSucceeds libOptions (pageReplies (sampleUpstream threePages) ! 2)
   \<and> hasCursor (pageReplies (sampleUpstream threePages) ! 0)
   \<and> hasCursor (pageReplies (sampleUpstream threePages) ! 1)
   \<and> \<not> hasCursor (pageReplies (sampleUpstream threePages) ! 2)
   \<and> searchCalls (streamSession (sampleUpstream threePages) (JStr ''UCBJycsmduvYEL83R_U4JriQ'') (Some 1)) = 3
   \<and> searchCalls (takeWhile (\<lambda>e. e \<noteq> CloseEvent)
        (streamSession (sampleUpstream threePages) (JStr ''UCBJycsmduvYEL83R_U4JriQ'') (Some 1))) = 1
   \<and> searchCalls (dropWhile (\<lambda>e. e \<noteq> CloseEvent)
        (streamSession (sampleUpstream threePages) (JStr ''UCBJycsmduvYEL83R_U4JriQ'') (Some 1))) = 2"
proof -
  let ?up = "sampleUpstream threePages"
  let ?ch = "JStr ''UCBJycsmduvYEL83R_U4JriQ''"
  have h1: "truthy ?ch" by simp
  have h2: "snd (getChannelId (lookupReply ?up) ?ch) = Returned ?ch" by code_simp
  have h3: "snd (getChannelInfo (infoReply ?up) ?ch)
      = Returned (JObj [(''id'', JStr ''UCBJycsmduvYEL83R_U4JriQ''), (''title'', JStr ''MKBHD''),
                        (''description'', JStr ''tech''), (''thumbnail'', JStr ''u''),
                        (''subscriberCount'', JStr ''19000000''), (''videoCount'', JStr ''1700''),
                        (''viewCount'', JStr ''4000000000'')])"
    by code_simp
  have h5: "3 \<le> length (pageReplies ?up)" by code_simp
  have p0: "pageSucceeds libOptions (pageReplies ?up ! 0)" by code_simp
  have p1: "pageSucceeds libOptions (pageReplies ?up ! 1)" by code_simp
  have p2: "pageSucceeds libOptions (pageReplies ?up ! 2)" by code_simp
  have c0: "hasCursor (pageReplies ?up ! 0)" by code_simp
  have c1: "hasCursor (pageReplies ?up ! 1)" by code_simp
  have c2: "\<not> hasCursor (pageReplies ?up ! 2)" by code_simp
  have i3: "i = 0 \<or> i = 1 \<or> i = 2" if "i < 3" for i :: nat
    using that by arith
  have i2: "i = 0 \<or> i = 1" if "i < 3 - 1" for i :: nat
    using that by arith
  have h6: "\<forall>i<3. pageSucceeds libOptions (pageReplies ?up ! i)"
    using p0 p1 p2 i3 by blast
  have h7: "\<forall>i<3 - 1. hasCursor (pageReplies ?up ! i)"
    using c0 c1 i2 by blast
  have h8: "\<not> hasCursor (pageReplies ?up ! (3 - 1))"
    using c2 by simp
  have b: "searchCalls (takeWhile (\<lambda>e. e \<noteq> CloseEvent) (streamSession ?up ?ch (Some 1))) = 1"
    by code_simp
  note d = disconnect_does_not_stop_fetch [OF h1 h2 h3 _ h5 h6 h7 h8, of 1]
  from d have n: "searchCalls (streamSession ?up ?ch (Some 1)) = 3" by simp
  from d b have a: "searchCalls (dropWhile (\<lambda>e. e \<noteq> CloseEvent) (streamSession ?up ?ch (Some 1))) = 2"
    by simp
  from h1 h2 h5 p0 p1 p2 c0 c1 c2 n b a show ?thesis by simp
qed

text \<open>
  C2 as stated fails: the consumer disconnects while the search call of page 1 is in
  flight (wait 0 is the channel info call, wait 1 the first page's search call), and after
  the listener ran the loop still issues the search calls of pages 2 and 3.
\<close>

theorem disconnect_does_not_stop_fetch_counterexample:
  "searchCalls (takeWhile (\<lambda>e. e \<noteq> CloseEvent)
      (streamSession (sampleUpstream threePages) (JStr ''UCBJycsmduvYEL83R_U4JriQ'') (Some 1)))
   = 1
   \<and> searchCalls (dropWhile (\<lambda>e. e \<noteq> CloseEvent)
      (streamSession (sampleUpstream threePages) (JStr ''UCBJycsmduvYEL83R_U4JriQ'') (Some 1)))
   = 2"
  by code_simp

end
